theory Spec2Isabelle
  imports Complex_Main "HOL-Library.Word" "HOL-Library.Log_Nat" "HOL-Library.Signed_Division"
begin

section \<open>Go's float64 arithmetic\<close>

text \<open>
  \<open>Allow\<close> computes the refill in \<open>float64\<close>. A float64 is modelled by the rational it
  denotes, or by one of the three special values. Negative zero is identified with zero:
  the only divisors in the program are converted integers and the constant \<open>1e9\<close>, and
  the only consumer of a product is the conversion to \<open>int\<close>, so its sign is never
  observed.
\<close>

datatype float64 = Finite rat | PosInf | NegInf | NaN

definition round_half_even :: "rat \<Rightarrow> int" where
  "round_half_even x =
     (let f = \<lfloor>x\<rfloor>; r = x - of_int f
      in if r < 1 / 2 then f else if 1 / 2 < r then f + 1 else if even f then f else f + 1)"

text \<open>\<open>pow2 k\<close> is \<open>2^k\<close> for an integer exponent of either sign.\<close>

definition pow2 :: "int \<Rightarrow> rat" where
  "pow2 k = (if 0 \<le> k then of_int (2 ^ nat k) else 1 / of_int (2 ^ nat (- k)))"

text \<open>\<open>ilog2 x\<close> is the binary exponent of a positive rational: \<open>2^e \<le> x < 2^(e+1)\<close>.\<close>

definition ilog2 :: "rat \<Rightarrow> int" where
  "ilog2 x =
     (let (p, q) = quotient_of x; e = bitlen p - bitlen q
      in if pow2 e \<le> x then e else e - 1)"

text \<open>
  Rounding to the nearest binary64 value, ties to even: 53 significant bits, exponents
  from -1022 (below it the spacing stays \<open>2^-1074\<close>, the subnormal range) to 1023; a
  magnitude of at least \<open>2^1024 - 2^970\<close> rounds to an infinity.
\<close>

definition round64 :: "rat \<Rightarrow> float64" where
  "round64 x =
     (if x = 0 then Finite 0
      else if of_int (2 ^ 1024 - 2 ^ 970) \<le> \<bar>x\<bar> then (if 0 < x then PosInf else NegInf)
      else
        let e = max (ilog2 \<bar>x\<bar>) (- 1022);
            ulp = pow2 (e - 52);
            m = round_half_even (\<bar>x\<bar> / ulp)
        in Finite (sgn x * of_int m * ulp))"

fun fadd :: "float64 \<Rightarrow> float64 \<Rightarrow> float64" where
  "fadd NaN _ = NaN"
| "fadd _ NaN = NaN"
| "fadd (Finite a) (Finite b) = round64 (a + b)"
| "fadd PosInf NegInf = NaN"
| "fadd NegInf PosInf = NaN"
| "fadd (Finite a) y = y"
| "fadd x _ = x"

fun fmul :: "float64 \<Rightarrow> float64 \<Rightarrow> float64" where
  "fmul NaN _ = NaN"
| "fmul _ NaN = NaN"
| "fmul (Finite a) (Finite b) = round64 (a * b)"
| "fmul (Finite a) PosInf = (if a = 0 then NaN else if 0 < a then PosInf else NegInf)"
| "fmul (Finite a) NegInf = (if a = 0 then NaN else if 0 < a then NegInf else PosInf)"
| "fmul PosInf (Finite b) = (if b = 0 then NaN else if 0 < b then PosInf else NegInf)"
| "fmul NegInf (Finite b) = (if b = 0 then NaN else if 0 < b then NegInf else PosInf)"
| "fmul PosInf PosInf = PosInf"
| "fmul NegInf NegInf = PosInf"
| "fmul PosInf NegInf = NegInf"
| "fmul NegInf PosInf = NegInf"

fun fdiv :: "float64 \<Rightarrow> float64 \<Rightarrow> float64" where
  "fdiv NaN _ = NaN"
| "fdiv _ NaN = NaN"
| "fdiv (Finite a) (Finite b) =
     (if b = 0 then (if a = 0 then NaN else if 0 < a then PosInf else NegInf)
      else round64 (a / b))"
| "fdiv (Finite a) _ = Finite 0"
| "fdiv PosInf (Finite b) = (if 0 \<le> b then PosInf else NegInf)"
| "fdiv NegInf (Finite b) = (if 0 \<le> b then NegInf else PosInf)"
| "fdiv _ _ = NaN"

text \<open>\<open>float64(i)\<close> for an integer \<open>i\<close>.\<close>

definition float64_of_int :: "int \<Rightarrow> float64" where
  "float64_of_int i = round64 (of_int i)"

text \<open>
  \<open>int(f)\<close> discards the fraction (truncation towards zero). When the value does not fit
  an \<open>int\<close> (64 bits), or is not a number, Go leaves the result to the implementation:
  the parameter \<open>conv\<close> stands for what the platform returns then.
\<close>

definition trunc :: "rat \<Rightarrow> int" where
  "trunc x = (if 0 \<le> x then \<lfloor>x\<rfloor> else \<lceil>x\<rceil>)"

definition int_of_float64 :: "(float64 \<Rightarrow> 64 word) \<Rightarrow> float64 \<Rightarrow> 64 word" where
  "int_of_float64 conv f =
     (case f of
        Finite x \<Rightarrow>
          (let t = trunc x
           in if - (2 ^ 63) \<le> t \<and> t < 2 ^ 63 then word_of_int t else conv f)
      | _ \<Rightarrow> conv f)"

section \<open>Package time\<close>

text \<open>
  A \<open>time.Time\<close> taken from \<open>time.Now()\<close> carries a monotonic clock reading, which is
  what \<open>time.Since\<close> subtracts; a time is modelled by that reading, in nanoseconds. A
  \<open>time.Duration\<close> is an \<open>int64\<close> count of nanoseconds, and the subtraction saturates.
\<close>

type_synonym Time = int
type_synonym Duration = int

definition Since :: "Time \<Rightarrow> Time \<Rightarrow> Duration" where
  "Since now t = max (- (2 ^ 63)) (min (2 ^ 63 - 1) (now - t))"

text \<open>
  \<open>Duration.Seconds\<close>:
  \<^verbatim>\<open>sec := d / Second; nsec := d % Second; return float64(sec) + float64(nsec)/1e9\<close>
  where Go's integer \<open>/\<close> and \<open>%\<close> truncate towards zero.
\<close>

definition Seconds :: "Duration \<Rightarrow> float64" where
  "Seconds d =
     (let sec = d sdiv 1000000000; nsec = d smod 1000000000
      in fadd (float64_of_int sec) (fdiv (float64_of_int nsec) (Finite 1000000000)))"

section \<open>The rate limiter\<close>

text \<open>
  The map \<open>requests\<close> holds pointers to \<open>RequestMetadata\<close> values, which \<open>Allow\<close> updates
  in place. The heap of these values is explicit: a pointer is an address, \<open>cells\<close> gives
  the value at an address, and \<open>fresh\<close> is the next address \<open>&RequestMetadata{...}\<close>
  returns. Go's \<open>int\<close> is taken at 64 bits. The mutex is not part of the sequential model.
\<close>

type_synonym ref = nat

record RequestMetadata =
  lastSeen :: Time
  tokenCount :: "64 word"

record Heap =
  cells :: "ref \<Rightarrow> RequestMetadata"
  fresh :: ref

record RateLimiter =
  requests :: "string \<rightharpoonup> ref"
  maxLimit :: "64 word"
  timeLImit :: "64 word"

definition new :: "RequestMetadata \<Rightarrow> Heap \<Rightarrow> ref \<times> Heap" where
  "new v h = (fresh h, \<lparr>cells = (cells h)(fresh h := v), fresh = Suc (fresh h)\<rparr>)"

definition NewRateLimiter :: "64 word \<Rightarrow> 64 word \<Rightarrow> RateLimiter" where
  "NewRateLimiter maxLimit' timeLimit =
     \<lparr>requests = Map.empty, maxLimit = maxLimit', timeLImit = timeLimit\<rparr>"

definition refillRate :: "RateLimiter \<Rightarrow> float64" where
  "refillRate rl = fdiv (float64_of_int (sint (maxLimit rl))) (float64_of_int (sint (timeLImit rl)))"

definition tokensToAdd :: "(float64 \<Rightarrow> 64 word) \<Rightarrow> RateLimiter \<Rightarrow> Duration \<Rightarrow> 64 word" where
  "tokensToAdd conv rl d = int_of_float64 conv (fmul (Seconds d) (refillRate rl))"

text \<open>
  The spec's count of whole tokens is the floor of the elapsed seconds times the capacity
  over the window, taken exactly. \<open>spec_quotient\<close> follows these words of the spec, for
  comparison with \<open>tokensToAdd\<close>: the exact quotient for the duration that
  \<open>time.Since\<close> measured. \<open>scaled L H x y\<close> says that \<open>y\<close> lies between \<open>x * L\<close> and
  \<open>x * H\<close>; it states how far a rounded value is from the exact one.
\<close>

definition spec_quotient :: "RateLimiter \<Rightarrow> Duration \<Rightarrow> rat" where
  "spec_quotient rl d =
     of_int d / 1000000000 * of_int (sint (maxLimit rl)) / of_int (sint (timeLImit rl))"

definition scaled :: "rat \<Rightarrow> rat \<Rightarrow> rat \<Rightarrow> rat \<Rightarrow> bool" where
  "scaled L H x y \<longleftrightarrow> x * L \<le> y \<and> y \<le> x * H"

text \<open>
  \<open>Allow\<close> reads the clock once for a new key, and for a known key once in \<open>time.Since\<close>
  and once more when it adds tokens: \<open>now1\<close> and \<open>now2\<close> are these two readings.
  \<open>Allow_existing\<close> is the part of \<open>Allow\<close> after the early return (lines 41 to 59), on
  the value that \<open>metadata\<close> points to: the refill, the clamp and the decrement.
\<close>

definition Allow_existing ::
  "(float64 \<Rightarrow> 64 word) \<Rightarrow> RateLimiter \<Rightarrow> Time \<Rightarrow> Time \<Rightarrow> RequestMetadata
     \<Rightarrow> bool \<times> RequestMetadata" where
  "Allow_existing conv rl now1 now2 metadata =
     (let add = tokensToAdd conv rl (Since now1 (lastSeen metadata));
          m1 = (if 0 <s add
                then metadata\<lparr>tokenCount := tokenCount metadata + add, lastSeen := now2\<rparr>
                else metadata);
          m2 = (if maxLimit rl <s tokenCount m1 then m1\<lparr>tokenCount := maxLimit rl\<rparr> else m1)
      in if 0 <s tokenCount m2
         then (True, m2\<lparr>tokenCount := tokenCount m2 - 1\<rparr>)
         else (False, m2))"

definition Allow ::
  "(float64 \<Rightarrow> 64 word) \<Rightarrow> Time \<Rightarrow> Time \<Rightarrow> string \<Rightarrow> Heap \<times> RateLimiter
     \<Rightarrow> bool \<times> Heap \<times> RateLimiter" where
  "Allow conv now1 now2 apiKey s =
     (let (h, rl) = s
      in case requests rl apiKey of
           None \<Rightarrow>
             (let (p, h') = new \<lparr>lastSeen = now1, tokenCount = maxLimit rl - 1\<rparr> h
              in (True, h', rl\<lparr>requests := (requests rl)(apiKey \<mapsto> p)\<rparr>))
         | Some metadata \<Rightarrow>
             (let (b, m) = Allow_existing conv rl now1 now2 (cells h metadata)
              in (b, h\<lparr>cells := (cells h)(metadata := m)\<rparr>, rl)))"

text \<open>The bucket of a key: the value its pointer refers to.\<close>

definition bucket :: "Heap \<times> RateLimiter \<Rightarrow> string \<Rightarrow> RequestMetadata option" where
  "bucket s apiKey = map_option (cells (fst s)) (requests (snd s) apiKey)"

text \<open>A sequence of calls, each with its key and its two clock readings.\<close>

fun run ::
  "(float64 \<Rightarrow> 64 word) \<Rightarrow> (string \<times> Time \<times> Time) list \<Rightarrow> Heap \<times> RateLimiter
     \<Rightarrow> bool list \<times> Heap \<times> RateLimiter" where
  "run conv [] s = ([], s)"
| "run conv ((apiKey, now1, now2) # cs) s =
     (let (b, s') = Allow conv now1 now2 apiKey s; (bs, s'') = run conv cs s'
      in (b # bs, s''))"

text \<open>
  Every pointer in the map is an allocated address, and no two keys share one: \<open>Allow\<close>
  stores only pointers it has just allocated. This holds of a new limiter and after every
  call (\<open>wf_init\<close>, \<open>wf_Allow\<close> and \<open>wf_run\<close> below).
\<close>

definition wf :: "Heap \<times> RateLimiter \<Rightarrow> bool" where
  "wf s \<longleftrightarrow>
     (\<forall>k p. requests (snd s) k = Some p \<longrightarrow> p < fresh (fst s)) \<and>
     (\<forall>k k' p. requests (snd s) k = Some p \<and> requests (snd s) k' = Some p \<longrightarrow> k = k')"

text \<open>Concrete values for the examples: a heap with nothing allocated, and the amd64
  result of an out-of-range conversion.\<close>

definition heap0 :: Heap where
  "heap0 = \<lparr>cells = (\<lambda>_. \<lparr>lastSeen = 0, tokenCount = 0\<rparr>), fresh = 0\<rparr>"

definition conv_amd64 :: "float64 \<Rightarrow> 64 word" where
  "conv_amd64 f = - (2 ^ 63)"

section \<open>The middleware\<close>

text \<open>
  A request is modelled by its header, a response writer by the status and body written
  to it (status 0: no header written yet), a handler by what its \<open>ServeHTTP\<close> does to the
  writer. The header maps a field name to its values, under the name \<open>Header.Get\<close> looks
  up; \<open>Get\<close> returns the first value, or the empty string when there is none.
  \<open>http.Error\<close> calls \<open>WriteHeader\<close> with the status code, which sets the status unless a
  header has been written already, and then writes the message followed by a newline.
\<close>

record Request =
  Header :: "string \<rightharpoonup> string list"

record ResponseWriter =
  status :: nat
  body :: string

type_synonym Handler = "ResponseWriter \<Rightarrow> Request \<Rightarrow> ResponseWriter"

definition Header_Get :: "(string \<rightharpoonup> string list) \<Rightarrow> string \<Rightarrow> string" where
  "Header_Get h key = (case h key of None \<Rightarrow> [] | Some [] \<Rightarrow> [] | Some (v # _) \<Rightarrow> v)"

definition http_Error :: "ResponseWriter \<Rightarrow> string \<Rightarrow> nat \<Rightarrow> ResponseWriter" where
  "http_Error w err code =
     w\<lparr>status := (if status w = 0 then code else status w), body := body w @ err @ [CHR 0x0A]\<rparr>"

definition StatusUnauthorized :: nat where
  "StatusUnauthorized = 401"

definition StatusTooManyRequests :: nat where
  "StatusTooManyRequests = 429"

text \<open>
  The package \<open>api-store\<close> is outside the files verified here; the map that
  \<open>apistore.GetApiKeys\<close> returns is the parameter \<open>apiKeys\<close>.
\<close>

definition isValidApiKey :: "(string \<rightharpoonup> bool) \<Rightarrow> string \<Rightarrow> bool" where
  "isValidApiKey apiKeys apiKey = (case apiKeys apiKey of None \<Rightarrow> False | Some _ \<Rightarrow> True)"

definition RateLimiterMiddleware ::
  "Handler \<Rightarrow> (string \<rightharpoonup> bool) \<Rightarrow> (float64 \<Rightarrow> 64 word) \<Rightarrow> Time \<Rightarrow> Time
     \<Rightarrow> ResponseWriter \<Rightarrow> Request \<Rightarrow> Heap \<times> RateLimiter
     \<Rightarrow> ResponseWriter \<times> Heap \<times> RateLimiter" where
  "RateLimiterMiddleware next apiKeys conv now1 now2 w r limiter =
     (let apiKey = Header_Get (Header r) ''X-API-KEY''
      in if apiKey = [] then (http_Error w ''Missing API key'' StatusUnauthorized, limiter)
         else if \<not> isValidApiKey apiKeys apiKey
         then (http_Error w ''Invalid API key'' StatusUnauthorized, limiter)
         else
           (let (allowed, limiter') = Allow conv now1 now2 apiKey limiter
            in if \<not> allowed
               then (http_Error w ''Rate limit exceeded'' StatusTooManyRequests, limiter')
               else (next w r, limiter')))"

text \<open>
  From \<open>main.go\<close>: the limiter is \<open>NewRateLimiter(5, 60)\<close> and the first wrapped handler
  writes \<open>Hello World\<close>; a write to a writer whose header has not been written (status 0)
  sends status 200 first. \<open>README_keys\<close> is the key store as the README lists it, used
  in examples only.
\<close>

definition helloHandler :: Handler where
  "helloHandler w r =
     w\<lparr>status := (if status w = 0 then 200 else status w), body := body w @ ''Hello World''\<rparr>"

definition README_keys :: "string \<rightharpoonup> bool" where
  "README_keys = [''apikey123'' \<mapsto> True, ''apikey124'' \<mapsto> True]"

definition writer0 :: ResponseWriter where
  "writer0 = \<lparr>status = 0, body = []\<rparr>"

text \<open>
  Two states for the examples. \<open>exhausted\<close>: the limiter of \<open>main.go\<close> after six calls for
  one key at clock reading 0. \<open>huge\<close>: a limiter with capacity \<open>6 * 10^18\<close> and a window of
  one second, after one call at clock reading 0.
\<close>

definition exhausted :: "Heap \<times> RateLimiter" where
  "exhausted = snd (run conv_amd64 (replicate 6 (''k'', 0, 0)) (heap0, NewRateLimiter 5 60))"

definition huge :: "Heap \<times> RateLimiter" where
  "huge = snd (Allow conv_amd64 0 0 ''k'' (heap0, NewRateLimiter 6000000000000000000 1))"

text \<open>
  Two more. \<open>longwin\<close>: capacity 1 and a window of \<open>2^25\<close> seconds, after one call at clock
  reading 0. \<open>drained\<close>: capacity 5 and a window of 2 seconds (a token every 0.4 s), after
  six calls for one key at clock reading 0.
\<close>

definition longwin :: "Heap \<times> RateLimiter" where
  "longwin = snd (Allow conv_amd64 0 0 ''k'' (heap0, NewRateLimiter 1 33554432))"

definition drained :: "Heap \<times> RateLimiter" where
  "drained = snd (run conv_amd64 (replicate 6 (''k'', 0, 0)) (heap0, NewRateLimiter 5 2))"

section \<open>Facts about the float64 model\<close>

lemma pow2_power_int: "pow2 k = power_int 2 k"
proof (cases "0 \<le> k")
  case True
  then show ?thesis by (simp add: pow2_def power_int_def)
next
  case False
  then show ?thesis by (simp add: pow2_def power_int_def power_one_over inverse_eq_divide)
qed

lemma pow2_pos: "0 < pow2 k"
  by (simp add: pow2_power_int zero_less_power_int)

lemma pow2_mono: "a \<le> b \<Longrightarrow> pow2 a \<le> pow2 b"
  by (simp add: pow2_power_int power_int_increasing)

lemma pow2_diff: "pow2 (a - b) = pow2 a / pow2 b"
  by (simp add: pow2_power_int power_int_diff)

lemma pow2_nat: "pow2 (int n) = 2 ^ n"
  by (simp add: pow2_power_int)

lemma ilog2_le:
  assumes "0 < x"
  shows "pow2 (ilog2 x) \<le> x"
proof -
  obtain p q where pq: "quotient_of x = (p, q)" by (cases "quotient_of x")
  then have x: "x = of_int p / of_int q" and q: "0 < q"
    by (simp_all add: quotient_of_div quotient_of_denom_pos)
  from assms x q have p: "0 < p" by (simp add: zero_less_divide_iff)
  let ?e = "bitlen p - bitlen q"
  show ?thesis
  proof (cases "pow2 ?e \<le> x")
    case True
    then show ?thesis by (simp add: ilog2_def pq)
  next
    case False
    have bp: "1 \<le> bitlen p" using p by (simp add: bitlen_alt_def)
    have "(2::int) ^ nat (bitlen p - 1) \<le> p" using bitlen_bounds [OF p] by simp
    then have "(of_int (2 ^ nat (bitlen p - 1)) :: rat) \<le> of_int p" by (simp only: of_int_le_iff)
    then have lo: "pow2 (bitlen p - 1) \<le> of_int p" using bp by (simp add: pow2_def)
    have "q < 2 ^ nat (bitlen q)" using bitlen_bounds [OF q] by simp
    then have "(of_int q :: rat) \<le> of_int (2 ^ nat (bitlen q))" by simp
    then have hi: "of_int q \<le> pow2 (bitlen q)" using bitlen_nonneg [of q] by (simp add: pow2_def)
    have "pow2 (?e - 1) = pow2 (bitlen p - 1) / pow2 (bitlen q)"
      using pow2_diff [of "bitlen p - 1" "bitlen q"] by (simp add: algebra_simps)
    also have "\<dots> \<le> of_int p / of_int q"
      using lo hi q pow2_pos [of "bitlen q"] pow2_pos [of "bitlen p - 1"]
      by (intro frac_le) simp_all
    also have "\<dots> = x" by (simp add: x)
    finally show ?thesis using False by (simp add: ilog2_def pq)
  qed
qed

lemma ilog2_less:
  assumes "0 < x"
  shows "x < pow2 (ilog2 x + 1)"
proof -
  obtain p q where pq: "quotient_of x = (p, q)" by (cases "quotient_of x")
  then have x: "x = of_int p / of_int q" and q: "0 < q"
    by (simp_all add: quotient_of_div quotient_of_denom_pos)
  from assms x q have p: "0 < p" by (simp add: zero_less_divide_iff)
  let ?e = "bitlen p - bitlen q"
  show ?thesis
  proof (cases "pow2 ?e \<le> x")
    case True
    have bq: "1 \<le> bitlen q" using q by (simp add: bitlen_alt_def)
    have "p < 2 ^ nat (bitlen p)" using bitlen_bounds [OF p] by simp
    then have "(of_int p :: rat) < of_int (2 ^ nat (bitlen p))" by (simp only: of_int_less_iff)
    then have hi: "of_int p < pow2 (bitlen p)" using bitlen_nonneg [of p] by (simp add: pow2_def)
    have "(2::int) ^ nat (bitlen q - 1) \<le> q" using bitlen_bounds [OF q] by simp
    then have "(of_int (2 ^ nat (bitlen q - 1)) :: rat) \<le> of_int q" by (simp only: of_int_le_iff)
    then have lo: "pow2 (bitlen q - 1) \<le> of_int q" using bq by (simp add: pow2_def)
    have "x = of_int p / of_int q" by (rule x)
    also have "\<dots> < pow2 (bitlen p) / pow2 (bitlen q - 1)"
      using hi lo p pow2_pos [of "bitlen q - 1"]
      by (intro frac_less) simp_all
    also have "\<dots> = pow2 (?e + 1)"
      using pow2_diff [of "bitlen p" "bitlen q - 1"] by (simp add: algebra_simps)
    finally show ?thesis using True by (simp add: ilog2_def pq)
  next
    case False
    then show ?thesis by (simp add: ilog2_def pq)
  qed
qed

lemma round_half_even_bounds:
  "of_int (round_half_even x) \<le> x + 1 / 2 \<and> x - 1 / 2 \<le> of_int (round_half_even x)"
proof -
  define f where "f = \<lfloor>x\<rfloor>"
  define r where "r = x - of_int f"
  have r: "0 \<le> r" "r < 1" unfolding r_def f_def by linarith+
  have x: "x = of_int f + r" by (simp add: r_def)
  have rhe: "round_half_even x =
      (if r < 1 / 2 then f else if 1 / 2 < r then f + 1 else if even f then f else f + 1)"
    by (simp add: round_half_even_def Let_def f_def r_def)
  have lo: "of_int f \<le> x + 1 / 2 \<and> x - 1 / 2 \<le> of_int f" if "r \<le> 1 / 2"
    using r that x by linarith
  have hi: "of_int (f + 1) \<le> x + 1 / 2 \<and> x - 1 / 2 \<le> of_int (f + 1)" if "1 / 2 \<le> r"
    using r that x by simp
  consider "r < 1 / 2" | "1 / 2 < r" | "r = 1 / 2" by linarith
  then show ?thesis
  proof cases
    case 1
    then have "round_half_even x = f" by (simp add: rhe)
    with lo 1 show ?thesis by simp
  next
    case 2
    then have "round_half_even x = f + 1" by (simp add: rhe)
    with hi 2 show ?thesis by (simp del: of_int_add)
  next
    case 3
    then have "round_half_even x = f \<or> round_half_even x = f + 1" by (simp add: rhe)
    then show ?thesis
    proof
      assume "round_half_even x = f"
      with lo 3 show ?thesis by simp
    next
      assume "round_half_even x = f + 1"
      with hi 3 show ?thesis by (simp del: of_int_add)
    qed
  qed
qed

lemma round64_Finite:
  assumes "\<bar>x\<bar> < of_int (2 ^ 1024 - 2 ^ 970)"
  shows "\<exists>y. round64 x = Finite y"
  using assms by (simp add: round64_def Let_def)

lemma round64_zero: "round64 0 = Finite 0"
  by (simp add: round64_def)

text \<open>Some values of the rounding: 0.1 and 5/60 are not binary fractions, and the product
  of the rounded 5/60 with 12 is a tie that rounds to 1.\<close>

lemma round64_examples:
  "round64 (1 / 10) = Finite (3602879701896397 / 36028797018963968)"
  "round64 (5 / 60) = Finite (6004799503160661 / 72057594037927936)"
  "round64 (12 * (6004799503160661 / 72057594037927936)) = Finite 1"
  "round64 (1 / of_int (2 ^ 1075)) = Finite 0"
  "round64 (of_int (2 ^ 1024)) = PosInf"
  by code_simp+

lemma round64_int_bounds:
  assumes "i \<noteq> 0" and "\<bar>i\<bar> \<le> 2 ^ 63"
  shows "\<exists>y. round64 (of_int i) = Finite y \<and> 1 / 2 \<le> \<bar>y\<bar> \<and> \<bar>y\<bar> \<le> 2 ^ 64"
proof -
  define x :: rat where "x = of_int i"
  define u where "u = pow2 (max (ilog2 \<bar>x\<bar>) (- 1022) - 52)"
  define m where "m = round_half_even (\<bar>x\<bar> / u)"
  have x1: "1 \<le> \<bar>x\<bar>"
  proof -
    from assms(1) have "1 \<le> \<bar>i\<bar>" by simp
    then have "(of_int 1 :: rat) \<le> of_int \<bar>i\<bar>" by (simp only: of_int_le_iff)
    then show ?thesis by (simp add: x_def)
  qed
  have x2: "\<bar>x\<bar> \<le> 2 ^ 63"
  proof -
    from assms(2) have "(of_int \<bar>i\<bar> :: rat) \<le> of_int (2 ^ 63)" by (simp only: of_int_le_iff)
    then show ?thesis by (simp add: x_def)
  qed
  have small: "\<bar>x\<bar> < of_int (2 ^ 1024 - 2 ^ 970)"
  proof -
    have "(2::int) ^ 63 < 2 ^ 1024 - 2 ^ 970" by simp
    then have "(of_int (2 ^ 63) :: rat) < of_int (2 ^ 1024 - 2 ^ 970)" by (simp only: of_int_less_iff)
    with x2 show ?thesis by simp
  qed
  have u0: "0 < u" by (simp add: u_def pow2_pos)
  have ux: "u \<le> \<bar>x\<bar>"
  proof (cases "- 1022 \<le> ilog2 \<bar>x\<bar>")
    case True
    then have "u = pow2 (ilog2 \<bar>x\<bar> - 52)" by (simp add: u_def max_def)
    also have "\<dots> \<le> pow2 (ilog2 \<bar>x\<bar>)" by (rule pow2_mono) simp
    also have "\<dots> \<le> \<bar>x\<bar>" using x1 by (intro ilog2_le) simp
    finally show ?thesis .
  next
    case False
    then have "u = pow2 (- 1074)" by (simp add: u_def max_def)
    also have "\<dots> \<le> pow2 0" by (rule pow2_mono) simp
    also have "\<dots> = 1" by (simp add: pow2_def)
    finally show ?thesis using x1 by simp
  qed
  have r64: "round64 x = Finite (sgn x * of_int m * u)"
    using small x1 by (simp add: round64_def Let_def u_def m_def)
  have mb: "of_int m \<le> \<bar>x\<bar> / u + 1 / 2" "\<bar>x\<bar> / u - 1 / 2 \<le> of_int m"
    using round_half_even_bounds [of "\<bar>x\<bar> / u"] by (simp_all add: m_def)
  have up: "of_int m * u \<le> \<bar>x\<bar> + u / 2"
  proof -
    have "of_int m * u \<le> (\<bar>x\<bar> / u + 1 / 2) * u"
      using mb(1) u0 by (intro mult_right_mono) simp_all
    also have "\<dots> = \<bar>x\<bar> + u / 2" using u0 by (simp add: field_simps)
    finally show ?thesis .
  qed
  have dn: "\<bar>x\<bar> - u / 2 \<le> of_int m * u"
  proof -
    have "(\<bar>x\<bar> / u - 1 / 2) * u \<le> of_int m * u"
      using mb(2) u0 by (intro mult_right_mono) simp_all
    moreover have "(\<bar>x\<bar> / u - 1 / 2) * u = \<bar>x\<bar> - u / 2" using u0 by (simp add: field_simps)
    ultimately show ?thesis by simp
  qed
  have pos: "0 < of_int m * u" using dn ux x1 u0 by linarith
  have sg: "\<bar>sgn x\<bar> = 1" using x1 by (simp add: abs_sgn_eq)
  have "\<bar>sgn x * of_int m * u\<bar> = \<bar>sgn x\<bar> * \<bar>of_int m * u\<bar>"
    by (simp add: abs_mult mult.assoc)
  also have "\<dots> = of_int m * u" using pos sg by simp
  finally have ab: "\<bar>sgn x * of_int m * u\<bar> = of_int m * u" .
  have "1 / 2 \<le> of_int m * u" using dn ux x1 by linarith
  moreover have "of_int m * u \<le> 2 ^ 64" using up ux x2 by simp
  ultimately show ?thesis
    using r64 ab by (simp add: x_def)
qed

lemma round64_bound:
  assumes "\<bar>x\<bar> < of_int (2 ^ 1024 - 2 ^ 970)"
  shows "\<exists>y. round64 x = Finite y \<and> \<bar>y\<bar> \<le> 2 * \<bar>x\<bar> + 1"
proof (cases "x = 0")
  case True
  then show ?thesis by (simp add: round64_zero)
next
  case False
  define u where "u = pow2 (max (ilog2 \<bar>x\<bar>) (- 1022) - 52)"
  define m where "m = round_half_even (\<bar>x\<bar> / u)"
  have u0: "0 < u" by (simp add: u_def pow2_pos)
  have ux: "u \<le> \<bar>x\<bar> + 1"
  proof (cases "- 1022 \<le> ilog2 \<bar>x\<bar>")
    case True
    then have "u = pow2 (ilog2 \<bar>x\<bar> - 52)" by (simp add: u_def max_def)
    also have "\<dots> \<le> pow2 (ilog2 \<bar>x\<bar>)" by (rule pow2_mono) simp
    also have "\<dots> \<le> \<bar>x\<bar>" using False by (intro ilog2_le) simp
    finally show ?thesis by simp
  next
    case False
    then have "u = pow2 (- 1074)" by (simp add: u_def max_def)
    also have "\<dots> \<le> pow2 0" by (rule pow2_mono) simp
    also have "\<dots> = 1" by (simp add: pow2_def)
    finally show ?thesis by simp
  qed
  have r64: "round64 x = Finite (sgn x * of_int m * u)"
    using assms False by (simp add: round64_def Let_def u_def m_def)
  have mb: "of_int m \<le> \<bar>x\<bar> / u + 1 / 2" "\<bar>x\<bar> / u - 1 / 2 \<le> of_int m"
    using round_half_even_bounds [of "\<bar>x\<bar> / u"] by (simp_all add: m_def)
  have "0 < \<bar>x\<bar> / u" using False u0 by simp
  with mb(2) have "(- 1 :: rat) < of_int m" by linarith
  then have "- 1 < m" by (simp only: of_int_less_iff [symmetric, where 'a = rat])
  then have m0: "(0 :: rat) \<le> of_int m" by simp
  have up: "of_int m * u \<le> \<bar>x\<bar> + u / 2"
  proof -
    have "of_int m * u \<le> (\<bar>x\<bar> / u + 1 / 2) * u"
      using mb(1) u0 by (intro mult_right_mono) simp_all
    also have "\<dots> = \<bar>x\<bar> + u / 2" using u0 by (simp add: field_simps)
    finally show ?thesis .
  qed
  have sg: "\<bar>sgn x\<bar> = 1" using False by (simp add: abs_sgn_eq)
  have "\<bar>sgn x * of_int m * u\<bar> = \<bar>sgn x\<bar> * (\<bar>of_int m\<bar> * \<bar>u\<bar>)"
    by (simp add: abs_mult mult.assoc)
  also have "\<dots> = of_int m * u" using m0 u0 sg by simp
  finally have "\<bar>sgn x * of_int m * u\<bar> = of_int m * u" .
  then show ?thesis using r64 up ux by simp
qed

lemma big_threshold:
  assumes "\<bar>x\<bar> \<le> 2 ^ 100"
  shows "\<bar>x :: rat\<bar> < of_int (2 ^ 1024 - 2 ^ 970)"
proof -
  have "(2::int) ^ 100 < 2 ^ 1024 - 2 ^ 970" by simp
  then have "(of_int (2 ^ 100) :: rat) < of_int (2 ^ 1024 - 2 ^ 970)" by (simp only: of_int_less_iff)
  with assms show ?thesis by simp
qed

lemma round64_small:
  assumes "\<bar>x\<bar> \<le> b" and "b \<le> 2 ^ 100"
  shows "\<exists>y. round64 x = Finite y \<and> \<bar>y\<bar> \<le> 2 * b + 1"
proof -
  from assms have "\<bar>x\<bar> \<le> 2 ^ 100" by simp
  from round64_bound [OF big_threshold [OF this]] assms(1) show ?thesis by auto
qed

lemma float64_of_int_sint:
  fixes w :: "64 word"
  shows "\<exists>y. float64_of_int (sint w) = Finite y \<and> \<bar>y\<bar> \<le> 2 ^ 64 \<and> (w \<noteq> 0 \<longrightarrow> 1 / 2 \<le> \<bar>y\<bar>)"
proof (cases "w = 0")
  case True
  then show ?thesis by (simp add: float64_of_int_def round64_zero)
next
  case False
  have nz: "sint w \<noteq> 0"
  proof
    assume "sint w = 0"
    then have "word_of_int (sint w) = (0 :: 64 word)" by simp
    with False show False by simp
  qed
  have "- (2 ^ 63) \<le> sint w" "sint w < 2 ^ 63"
    using sint_ge [of w] sint_lt [of w] by simp_all
  then have "\<bar>sint w\<bar> \<le> 2 ^ 63" by simp
  from round64_int_bounds [OF nz this] show ?thesis
    by (auto simp: float64_of_int_def)
qed

lemma refillRate_Finite:
  assumes "timeLImit rl \<noteq> 0"
  shows "\<exists>r. refillRate rl = Finite r"
proof -
  obtain a where a: "float64_of_int (sint (maxLimit rl)) = Finite a" "\<bar>a\<bar> \<le> 2 ^ 64"
    using float64_of_int_sint [of "maxLimit rl"] by blast
  obtain b where b: "float64_of_int (sint (timeLImit rl)) = Finite b" "1 / 2 \<le> \<bar>b\<bar>"
    using float64_of_int_sint [of "timeLImit rl"] assms by blast
  have b0: "b \<noteq> 0" using b(2) by auto
  have "\<bar>a / b\<bar> = \<bar>a\<bar> / \<bar>b\<bar>" by simp
  also have "\<dots> \<le> 2 ^ 64 / (1 / 2)"
    using a(2) b(2) by (intro frac_le) simp_all
  also have "\<dots> < of_int (2 ^ 1024 - 2 ^ 970)"
  proof -
    have "(2::int) ^ 65 < 2 ^ 1024 - 2 ^ 970" by simp
    then have "(of_int (2 ^ 65) :: rat) < of_int (2 ^ 1024 - 2 ^ 970)" by (simp only: of_int_less_iff)
    then show ?thesis by simp
  qed
  finally obtain r where "round64 (a / b) = Finite r"
    using round64_Finite by blast
  then show ?thesis
    by (simp add: refillRate_def a b b0)
qed

lemma Since_self: "Since t t = 0"
  by (simp add: Since_def)

lemma Since_bound: "\<bar>Since now t\<bar> \<le> 2 ^ 63"
  by (auto simp: Since_def max_def min_def)

lemma Seconds_zero: "Seconds 0 = Finite 0"
  by (simp add: Seconds_def float64_of_int_def round64_zero)

lemma Seconds_bound:
  assumes "\<bar>d\<bar> \<le> 2 ^ 63"
  shows "\<exists>y. Seconds d = Finite y \<and> \<bar>y\<bar> \<le> 2 ^ 38"
proof -
  define sec where "sec = d sdiv 1000000000"
  define nsec where "nsec = d smod 1000000000"
  have "\<bar>sec\<bar> = \<bar>d\<bar> div 1000000000"
    by (cases "d = 0") (simp_all add: sec_def signed_divide_int_def abs_mult abs_sgn_eq)
  also have "\<dots> \<le> 2 ^ 63 div 1000000000" using assms by (intro zdiv_mono1) simp_all
  finally have sec: "\<bar>sec\<bar> \<le> 2 ^ 34" by simp
  have "\<bar>nsec\<bar> = \<bar>d\<bar> mod 1000000000"
    by (cases "d = 0") (simp_all add: nsec_def signed_modulo_int_def abs_mult abs_sgn_eq)
  also have "\<dots> < 1000000000" by simp
  finally have nsec: "\<bar>nsec\<bar> \<le> 2 ^ 30" by simp
  have "\<bar>of_int sec :: rat\<bar> \<le> of_int (2 ^ 34)"
    using sec by (simp only: of_int_abs [symmetric] of_int_le_iff)
  then have "\<bar>of_int sec :: rat\<bar> \<le> 2 ^ 34" by simp
  from round64_small [OF this] obtain a where
    a: "float64_of_int sec = Finite a" "\<bar>a\<bar> \<le> 2 ^ 36"
    by (auto simp: float64_of_int_def)
  have "\<bar>of_int nsec :: rat\<bar> \<le> of_int (2 ^ 30)"
    using nsec by (simp only: of_int_abs [symmetric] of_int_le_iff)
  then have "\<bar>of_int nsec :: rat\<bar> \<le> 2 ^ 30" by simp
  from round64_small [OF this] obtain b where
    b: "float64_of_int nsec = Finite b" "\<bar>b\<bar> \<le> 2 ^ 32"
    by (auto simp: float64_of_int_def)
  have "\<bar>b / 1000000000\<bar> \<le> \<bar>b\<bar>" by (simp add: field_simps)
  with b(2) have "\<bar>b / 1000000000\<bar> \<le> 2 ^ 32" by simp
  from round64_small [OF this] obtain c where
    c: "round64 (b / 1000000000) = Finite c" "\<bar>c\<bar> \<le> 2 ^ 34"
    by auto
  have "\<bar>a + c\<bar> \<le> 2 ^ 36 + 2 ^ 34" using a(2) c(2) by linarith
  from round64_small [OF this] obtain y where
    y: "round64 (a + c) = Finite y" "\<bar>y\<bar> \<le> 2 ^ 37 + 2 ^ 35 + 1"
    by auto
  have "Seconds d = Finite y"
    by (simp add: Seconds_def Let_def sec_def [symmetric] nsec_def [symmetric] a b c y)
  then show ?thesis using y(2) by simp
qed

lemma trunc_abs: "\<bar>of_int (trunc x) :: rat\<bar> \<le> \<bar>x\<bar>"
proof (cases "0 \<le> x")
  case True
  then have "0 \<le> \<lfloor>x\<rfloor>" by simp
  then show ?thesis using True by (simp add: trunc_def)
next
  case False
  then have "\<lceil>x\<rceil> \<le> 0" by (simp add: ceiling_le_zero)
  then have "\<bar>of_int \<lceil>x\<rceil> :: rat\<bar> = - of_int \<lceil>x\<rceil>" by simp
  also have "\<dots> \<le> - x" by simp
  finally show ?thesis using False by (simp add: trunc_def)
qed

lemma tokensToAdd_config:
  assumes "maxLimit rl' = maxLimit rl" and "timeLImit rl' = timeLImit rl"
  shows "tokensToAdd conv rl' d = tokensToAdd conv rl d"
  using assms by (simp add: tokensToAdd_def refillRate_def)

lemma tokensToAdd_zero:
  assumes "timeLImit rl \<noteq> 0"
  shows "tokensToAdd conv rl 0 = 0"
proof -
  obtain r where "refillRate rl = Finite r"
    using refillRate_Finite [OF assms] by blast
  then show ?thesis
    by (simp add: tokensToAdd_def Seconds_zero round64_zero int_of_float64_def trunc_def)
qed

lemma tokensToAdd_bound:
  assumes "\<bar>sint (maxLimit rl)\<bar> \<le> 2 ^ 16" and "timeLImit rl \<noteq> 0"
  shows "\<bar>sint (tokensToAdd conv rl (Since now t))\<bar> \<le> 2 ^ 61"
proof -
  obtain sv where sv: "Seconds (Since now t) = Finite sv" "\<bar>sv\<bar> \<le> 2 ^ 38"
    using Seconds_bound [OF Since_bound] by blast
  have "\<bar>of_int (sint (maxLimit rl)) :: rat\<bar> \<le> of_int (2 ^ 16)"
    using assms(1) by (simp only: of_int_abs [symmetric] of_int_le_iff)
  then have "\<bar>of_int (sint (maxLimit rl)) :: rat\<bar> \<le> 2 ^ 16" by simp
  from round64_small [OF this] obtain a where
    a: "float64_of_int (sint (maxLimit rl)) = Finite a" "\<bar>a\<bar> \<le> 2 ^ 18"
    by (auto simp: float64_of_int_def)
  obtain b where b: "float64_of_int (sint (timeLImit rl)) = Finite b" "1 / 2 \<le> \<bar>b\<bar>"
    using float64_of_int_sint [of "timeLImit rl"] assms(2) by blast
  have b0: "b \<noteq> 0" using b(2) by auto
  have "\<bar>a / b\<bar> = \<bar>a\<bar> / \<bar>b\<bar>" by simp
  also have "\<dots> \<le> 2 ^ 18 / (1 / 2)"
    using a(2) b(2) by (intro frac_le) simp_all
  finally have "\<bar>a / b\<bar> \<le> 2 ^ 19" by simp
  from round64_small [OF this] obtain rv where
    rv: "round64 (a / b) = Finite rv" "\<bar>rv\<bar> \<le> 2 ^ 21"
    by auto
  have rate: "refillRate rl = Finite rv"
    by (simp add: refillRate_def a b b0 rv)
  have "\<bar>sv * rv\<bar> = \<bar>sv\<bar> * \<bar>rv\<bar>" by (simp add: abs_mult)
  also have "\<dots> \<le> 2 ^ 38 * 2 ^ 21"
    using sv(2) rv(2) by (intro mult_mono) simp_all
  finally have "\<bar>sv * rv\<bar> \<le> 2 ^ 59" by simp
  from round64_small [OF this] obtain pv where
    pv: "round64 (sv * rv) = Finite pv" "\<bar>pv\<bar> \<le> 2 ^ 61"
    by auto
  have "\<bar>of_int (trunc pv) :: rat\<bar> \<le> of_int (2 ^ 61)"
    using trunc_abs [of pv] pv(2) by simp
  then have tb: "\<bar>trunc pv\<bar> \<le> 2 ^ 61"
    by (simp only: of_int_abs [symmetric] of_int_le_iff)
  then have rg: "- (2 ^ 63) \<le> trunc pv \<and> trunc pv < 2 ^ 63" by auto
  then have "tokensToAdd conv rl (Since now t) = word_of_int (trunc pv)"
    by (simp add: tokensToAdd_def sv rate pv int_of_float64_def Let_def)
  moreover have "sint (word_of_int (trunc pv) :: 64 word) = trunc pv"
    using rg by (simp add: sint_sbintrunc' signed_take_bit_int_eq_self)
  ultimately show ?thesis using tb by simp
qed

text \<open>
  The count of whole tokens is the float64 one, and can fall short of the exact quotient:
  with capacity 1 and window 49, the product after exactly 49 seconds rounds below 1.
\<close>

lemma tokensToAdd_1_49: "tokensToAdd conv (NewRateLimiter 1 49) 49000000000 = 0"
  by code_simp

lemma tokensToAdd_5_60_zero: "tokensToAdd conv (NewRateLimiter 5 60) 0 = 0"
  by code_simp

lemma tokensToAdd_5_60_twelve: "tokensToAdd conv (NewRateLimiter 5 60) 12000000000 = 1"
  by code_simp

subsection \<open>The distance of the refill from the exact quotient\<close>

text \<open>
  Each rounding of a normal value moves it by at most a factor \<open>1 \<plusminus> 2^-53\<close>. The product
  \<open>elapsed.Seconds() * refillRate\<close> takes seven roundings (two conversions and a division
  for the rate; two conversions, a division and an addition for the seconds; then the
  multiplication, counted with them), so for a positive capacity and window and a duration
  that is not negative it is within a factor \<open>1 \<plusminus> 2^-50\<close> of \<open>spec_quotient\<close>.
\<close>

lemma ilog2_ge:
  assumes "pow2 k \<le> x"
  shows "k \<le> ilog2 x"
proof (rule ccontr)
  assume "\<not> k \<le> ilog2 x"
  then have "ilog2 x + 1 \<le> k" by simp
  then have "pow2 (ilog2 x + 1) \<le> pow2 k" by (rule pow2_mono)
  moreover have "0 < x" using assms pow2_pos [of k] by linarith
  then have "x < pow2 (ilog2 x + 1)" by (rule ilog2_less)
  ultimately show False using assms by linarith
qed

lemma round64_rel:
  assumes "pow2 (- 1022) \<le> \<bar>x\<bar>" and "\<bar>x\<bar> < of_int (2 ^ 1024 - 2 ^ 970)"
  shows "\<exists>y. round64 x = Finite y \<and> \<bar>y - x\<bar> \<le> \<bar>x\<bar> / 2 ^ 53"
proof -
  have x0: "x \<noteq> 0" using assms(1) pow2_pos [of "- 1022"] by auto
  define e where "e = ilog2 \<bar>x\<bar>"
  define u where "u = pow2 (e - 52)"
  define m where "m = round_half_even (\<bar>x\<bar> / u)"
  have e: "- 1022 \<le> e" unfolding e_def using assms(1) by (rule ilog2_ge)
  have u0: "0 < u" by (simp add: u_def pow2_pos)
  have r64: "round64 x = Finite (sgn x * of_int m * u)"
    using assms(2) x0 e by (simp add: round64_def Let_def u_def m_def e_def max_def)
  have mb: "of_int m \<le> \<bar>x\<bar> / u + 1 / 2" "\<bar>x\<bar> / u - 1 / 2 \<le> of_int m"
    using round_half_even_bounds [of "\<bar>x\<bar> / u"] by (simp_all add: m_def)
  have up: "of_int m * u \<le> \<bar>x\<bar> + u / 2"
  proof -
    have "of_int m * u \<le> (\<bar>x\<bar> / u + 1 / 2) * u"
      using mb(1) u0 by (intro mult_right_mono) simp_all
    also have "\<dots> = \<bar>x\<bar> + u / 2" using u0 by (simp add: field_simps)
    finally show ?thesis .
  qed
  have dn: "\<bar>x\<bar> - u / 2 \<le> of_int m * u"
  proof -
    have "(\<bar>x\<bar> / u - 1 / 2) * u \<le> of_int m * u"
      using mb(2) u0 by (intro mult_right_mono) simp_all
    moreover have "(\<bar>x\<bar> / u - 1 / 2) * u = \<bar>x\<bar> - u / 2" using u0 by (simp add: field_simps)
    ultimately show ?thesis by simp
  qed
  have "u = pow2 e / pow2 52" unfolding u_def by (rule pow2_diff)
  also have "pow2 52 = 2 ^ 52" using pow2_nat [of 52] by simp
  finally have "u / 2 = pow2 e / 2 ^ 53" by simp
  also have "\<dots> \<le> \<bar>x\<bar> / 2 ^ 53"
    using ilog2_le [of "\<bar>x\<bar>"] x0 by (simp add: e_def divide_right_mono)
  finally have uh: "u / 2 \<le> \<bar>x\<bar> / 2 ^ 53" .
  have sx: "sgn x * \<bar>x\<bar> = x" by (simp add: abs_sgn)
  have "sgn x * of_int m * u - x = sgn x * of_int m * u - sgn x * \<bar>x\<bar>"
    by (simp only: sx)
  also have "\<dots> = sgn x * (of_int m * u - \<bar>x\<bar>)"
    by (simp add: algebra_simps)
  finally have "sgn x * of_int m * u - x = sgn x * (of_int m * u - \<bar>x\<bar>)" .
  then have "\<bar>sgn x * of_int m * u - x\<bar> = \<bar>of_int m * u - \<bar>x\<bar>\<bar>"
    using x0 by (simp add: abs_mult abs_sgn_eq)
  also have "\<dots> \<le> u / 2" using up dn by linarith
  finally show ?thesis using r64 uh by auto
qed

lemma round64_scaled:
  assumes "0 \<le> x" and "x = 0 \<or> 1 / 2 ^ 200 \<le> x" and "x \<le> 2 ^ 200"
  shows "\<exists>y. round64 x = Finite y \<and> scaled (1 - 1 / 2 ^ 53) (1 + 1 / 2 ^ 53) x y"
proof (cases "x = 0")
  case True
  then show ?thesis by (simp add: round64_zero scaled_def)
next
  case False
  with assms(2) have lo: "1 / 2 ^ 200 \<le> x" by simp
  have "pow2 (- 1022) \<le> pow2 (- 200)" by (rule pow2_mono) simp
  also have "pow2 (- 200) = 1 / 2 ^ 200" by (simp add: pow2_power_int power_int_minus_divide)
  finally have a: "pow2 (- 1022) \<le> \<bar>x\<bar>" using lo assms(1) by simp
  have "(2::int) ^ 200 < 2 ^ 1024 - 2 ^ 970" by simp
  then have "(of_int (2 ^ 200) :: rat) < of_int (2 ^ 1024 - 2 ^ 970)" by (simp only: of_int_less_iff)
  then have b: "\<bar>x\<bar> < of_int (2 ^ 1024 - 2 ^ 970)" using assms(1,3) by simp
  from round64_rel [OF a b] obtain y where y: "round64 x = Finite y" "\<bar>y - x\<bar> \<le> \<bar>x\<bar> / 2 ^ 53"
    by blast
  from y(2) assms(1) have "\<bar>y - x\<bar> \<le> x / 2 ^ 53" by simp
  then have "x * (1 - 1 / 2 ^ 53) \<le> y \<and> y \<le> x * (1 + 1 / 2 ^ 53)"
    unfolding abs_le_iff by (simp add: algebra_simps)
  with y(1) show ?thesis by (auto simp: scaled_def)
qed

lemma scaled_mult:
  assumes "0 \<le> x1" "0 \<le> x2" "0 \<le> L1" "0 \<le> L2"
    and "scaled L1 H1 x1 y1" "scaled L2 H2 x2 y2"
  shows "scaled (L1 * L2) (H1 * H2) (x1 * x2) (y1 * y2)"
proof -
  from assms have a: "0 \<le> x1 * L1" "x1 * L1 \<le> y1" "y1 \<le> x1 * H1"
    and b: "0 \<le> x2 * L2" "x2 * L2 \<le> y2" "y2 \<le> x2 * H2"
    by (simp_all add: scaled_def)
  have "(x1 * L1) * (x2 * L2) \<le> y1 * y2"
    using a b by (intro mult_mono) simp_all
  moreover have "y1 * y2 \<le> (x1 * H1) * (x2 * H2)"
    using a b by (intro mult_mono) simp_all
  ultimately show ?thesis by (simp add: scaled_def algebra_simps)
qed

lemma scaled_div:
  assumes "0 \<le> x1" "0 < x2" "0 \<le> L1" "0 < L2"
    and "scaled L1 H1 x1 y1" "scaled L2 H2 x2 y2"
  shows "scaled (L1 / H2) (H1 / L2) (x1 / x2) (y1 / y2)"
proof -
  from assms have a: "0 \<le> x1 * L1" "x1 * L1 \<le> y1" "y1 \<le> x1 * H1"
    and b: "0 < x2 * L2" "x2 * L2 \<le> y2" "y2 \<le> x2 * H2"
    by (simp_all add: scaled_def)
  have "(x1 * L1) / (x2 * H2) \<le> y1 / y2"
    using a b by (intro frac_le) simp_all
  moreover have "y1 / y2 \<le> (x1 * H1) / (x2 * L2)"
    using a b by (intro frac_le) simp_all
  ultimately show ?thesis by (simp add: scaled_def)
qed

lemma scaled_add:
  assumes "0 \<le> x1" "0 \<le> x2"
    and "scaled L1 H1 x1 y1" "scaled L2 H2 x2 y2"
    and "L \<le> L1" "L \<le> L2" "H1 \<le> H" "H2 \<le> H"
  shows "scaled L H (x1 + x2) (y1 + y2)"
proof -
  have "x1 * L \<le> x1 * L1" "x2 * L \<le> x2 * L2" "x1 * H1 \<le> x1 * H" "x2 * H2 \<le> x2 * H"
    using assms by (simp_all add: mult_left_mono)
  with assms(3,4) show ?thesis
    by (simp add: scaled_def algebra_simps)
qed

lemma scaled_trans:
  assumes "0 \<le> x" "0 \<le> L" "0 \<le> l" "0 \<le> h"
    and "scaled L H x v" "scaled l h v y"
  shows "scaled (L * l) (H * h) x y"
proof -
  from assms have v: "x * L \<le> v" "v \<le> x * H" and y: "v * l \<le> y" "y \<le> v * h"
    by (simp_all add: scaled_def)
  have "x * L * l \<le> v * l" using v(1) assms(3) by (intro mult_right_mono) simp_all
  moreover have "v * h \<le> x * H * h" using v(2) assms(4) by (intro mult_right_mono) simp_all
  ultimately show ?thesis using y by (simp add: scaled_def algebra_simps)
qed

lemma scaled_weaken:
  assumes "0 \<le> x" and "scaled L H x y" and "L' \<le> L" and "H \<le> H'"
  shows "scaled L' H' x y"
proof -
  have "x * L' \<le> x * L" "x * H \<le> x * H'" using assms by (simp_all add: mult_left_mono)
  with assms(2) show ?thesis by (simp add: scaled_def)
qed

lemma scaled_zero: "scaled L H 0 y \<longleftrightarrow> y = 0"
  by (auto simp: scaled_def)

text \<open>One rounding after an approximation of an exact value of moderate size.\<close>

lemma round64_step:
  assumes "scaled L H x v" and "0 \<le> x" and "x = 0 \<or> 1 / 2 ^ 150 \<le> x" and "x \<le> 2 ^ 150"
    and "1 / 2 ^ 10 \<le> L" and "H \<le> 2 ^ 10"
  shows "\<exists>y. round64 v = Finite y \<and> scaled (L * (1 - 1 / 2 ^ 53)) (H * (1 + 1 / 2 ^ 53)) x y"
proof -
  from assms(1) have v: "x * L \<le> v" "v \<le> x * H" by (simp_all add: scaled_def)
  have L0: "0 \<le> L" using assms(5) by (rule order_trans [rotated]) simp
  have v0: "0 \<le> v" using v(1) assms(2) L0 by (meson mult_nonneg_nonneg order_trans)
  have lo: "v = 0 \<or> 1 / 2 ^ 200 \<le> v"
  proof (cases "x = 0")
    case True
    with v show ?thesis by simp
  next
    case False
    with assms(3) have "1 / 2 ^ 150 \<le> x" by simp
    then have "(1 / 2 ^ 150) * (1 / 2 ^ 10) \<le> x * L"
      using assms(5) by (intro mult_mono) simp_all
    moreover have "(1 :: rat) / 2 ^ 200 \<le> (1 / 2 ^ 150) * (1 / 2 ^ 10)" by simp
    ultimately show ?thesis using v(1) by linarith
  qed
  have "x * H \<le> 2 ^ 150 * 2 ^ 10"
  proof (cases "0 \<le> H")
    case True
    then show ?thesis using assms(2,4,6) by (intro mult_mono) simp_all
  next
    case False
    then have "x * H \<le> 0" using assms(2) by (simp add: mult_nonneg_nonpos)
    then show ?thesis by simp
  qed
  moreover have "(2 :: rat) ^ 150 * 2 ^ 10 \<le> 2 ^ 200" by simp
  ultimately have hi: "v \<le> 2 ^ 200" using v(2) by linarith
  from round64_scaled [OF v0 lo hi] obtain y where
    y: "round64 v = Finite y" "scaled (1 - 1 / 2 ^ 53) (1 + 1 / 2 ^ 53) v y"
    by blast
  have "scaled (L * (1 - 1 / 2 ^ 53)) (H * (1 + 1 / 2 ^ 53)) x y"
    using assms(2) L0 _ _ assms(1) y(2) by (rule scaled_trans) simp_all
  with y(1) show ?thesis by blast
qed

lemma scaled_div_const:
  assumes "scaled L H x y" and "0 < k"
  shows "scaled L H (x / k) (y / k)"
proof -
  from assms(1) have "x * L \<le> y" "y \<le> x * H" by (simp_all add: scaled_def)
  then have "x * L / k \<le> y / k" "y / k \<le> x * H / k"
    using assms(2) by (simp_all add: divide_right_mono)
  then show ?thesis by (simp add: scaled_def)
qed

lemma sdiv_smod_nonneg:
  fixes d :: int
  assumes "0 \<le> d"
  shows "d sdiv 1000000000 = d div 1000000000" "d smod 1000000000 = d mod 1000000000"
proof -
  show "d sdiv 1000000000 = d div 1000000000"
  proof (cases "d = 0")
    case True
    then show ?thesis by simp
  next
    case False
    with assms have "0 < d" by simp
    then show ?thesis by (simp add: signed_divide_int_def)
  qed
  show "d smod 1000000000 = d mod 1000000000"
  proof (cases "d = 0")
    case True
    then show ?thesis by simp
  next
    case False
    with assms have "0 < d" by simp
    then show ?thesis by (simp add: signed_modulo_int_def)
  qed
qed

lemma float64_of_int_scaled:
  assumes "0 \<le> i" and "i \<le> 2 ^ 63"
  shows "\<exists>y. float64_of_int i = Finite y \<and> scaled (1 - 1 / 2 ^ 53) (1 + 1 / 2 ^ 53) (of_int i) y"
  unfolding float64_of_int_def
proof (rule round64_scaled)
  show "(0 :: rat) \<le> of_int i" using assms(1) by simp
  show "of_int i = (0 :: rat) \<or> 1 / 2 ^ 200 \<le> (of_int i :: rat)"
  proof (cases "i = 0")
    case True
    then show ?thesis by simp
  next
    case False
    with assms(1) have "1 \<le> i" by simp
    then have "(of_int 1 :: rat) \<le> of_int i" by (simp only: of_int_le_iff)
    moreover have "(1 :: rat) / 2 ^ 200 \<le> 1" by simp
    ultimately show ?thesis by simp
  qed
  have "(of_int i :: rat) \<le> of_int (2 ^ 63)" using assms(2) by (simp only: of_int_le_iff)
  also have "\<dots> \<le> 2 ^ 200" by simp
  finally show "(of_int i :: rat) \<le> 2 ^ 200" .
qed

lemma refillRate_scaled:
  assumes "0 <s maxLimit rl" and "0 <s timeLImit rl"
  shows "\<exists>r. refillRate rl = Finite r \<and>
           scaled ((1 - 1 / 2 ^ 53) / (1 + 1 / 2 ^ 53) * (1 - 1 / 2 ^ 53))
                  ((1 + 1 / 2 ^ 53) / (1 - 1 / 2 ^ 53) * (1 + 1 / 2 ^ 53))
                  (of_int (sint (maxLimit rl)) / of_int (sint (timeLImit rl))) r"
proof -
  let ?lo = "1 - 1 / 2 ^ 53 :: rat" and ?hi = "1 + 1 / 2 ^ 53 :: rat"
  define c where "c = sint (maxLimit rl)"
  define w where "w = sint (timeLImit rl)"
  have c: "1 \<le> c" "c \<le> 2 ^ 63" and w: "1 \<le> w" "w \<le> 2 ^ 63"
    using assms sint_lt [of "maxLimit rl"] sint_lt [of "timeLImit rl"]
    by (simp_all add: c_def w_def word_sless_alt)
  have cr: "(1 :: rat) \<le> of_int c" "(of_int c :: rat) \<le> 2 ^ 63"
  proof -
    have "(of_int 1 :: rat) \<le> of_int c" using c(1) by (simp only: of_int_le_iff)
    then show "(1 :: rat) \<le> of_int c" by simp
    have "(of_int c :: rat) \<le> of_int (2 ^ 63)" using c(2) by (simp only: of_int_le_iff)
    then show "(of_int c :: rat) \<le> 2 ^ 63" by simp
  qed
  have wr: "(1 :: rat) \<le> of_int w" "(of_int w :: rat) \<le> 2 ^ 63"
  proof -
    have "(of_int 1 :: rat) \<le> of_int w" using w(1) by (simp only: of_int_le_iff)
    then show "(1 :: rat) \<le> of_int w" by simp
    have "(of_int w :: rat) \<le> of_int (2 ^ 63)" using w(2) by (simp only: of_int_le_iff)
    then show "(of_int w :: rat) \<le> 2 ^ 63" by simp
  qed
  obtain a where a: "float64_of_int c = Finite a" "scaled ?lo ?hi (of_int c) a"
    using float64_of_int_scaled [of c] c by auto
  obtain b where b: "float64_of_int w = Finite b" "scaled ?lo ?hi (of_int w) b"
    using float64_of_int_scaled [of w] w by auto
  have "of_int w * ?lo \<le> b" using b(2) by (simp add: scaled_def)
  moreover have "0 < of_int w * ?lo" using wr(1) by (intro mult_pos_pos) simp_all
  ultimately have b0: "b \<noteq> 0" by linarith
  have q: "scaled (?lo / ?hi) (?hi / ?lo) (of_int c / of_int w) (a / b)"
    using _ _ _ _ a(2) b(2) by (rule scaled_div) (use cr wr in simp_all)
  have x0: "(0 :: rat) \<le> of_int c / of_int w" using cr wr by simp
  have xlo: "1 / 2 ^ 150 \<le> (of_int c :: rat) / of_int w"
  proof -
    have "(1 :: rat) / 2 ^ 63 \<le> of_int c / of_int w"
      using cr wr by (intro frac_le) simp_all
    moreover have "(1 :: rat) / 2 ^ 150 \<le> 1 / 2 ^ 63" by simp
    ultimately show ?thesis by linarith
  qed
  have xhi: "(of_int c :: rat) / of_int w \<le> 2 ^ 150"
  proof -
    have "(of_int c :: rat) / of_int w \<le> 2 ^ 63 / 1"
      using cr wr by (intro frac_le) simp_all
    moreover have "(2 :: rat) ^ 63 / 1 \<le> 2 ^ 150" by simp
    ultimately show ?thesis by linarith
  qed
  have "\<exists>y. round64 (a / b) = Finite y \<and> scaled (?lo / ?hi * ?lo) (?hi / ?lo * ?hi) (of_int c / of_int w) y"
    using q x0 _ xhi
  proof (rule round64_step)
    show "of_int c / of_int w = (0 :: rat) \<or> 1 / 2 ^ 150 \<le> (of_int c :: rat) / of_int w"
      using xlo by simp
    show "1 / 2 ^ 10 \<le> ?lo / ?hi" by simp
    show "?hi / ?lo \<le> 2 ^ 10" by simp
  qed
  then obtain r where r: "round64 (a / b) = Finite r"
    "scaled (?lo / ?hi * ?lo) (?hi / ?lo * ?hi) (of_int c / of_int w) r" by blast
  have "refillRate rl = Finite r"
    using a(1) b(1) b0 r(1) by (simp add: refillRate_def c_def w_def)
  with r(2) show ?thesis unfolding c_def w_def by blast
qed

lemma Seconds_scaled:
  assumes "0 \<le> d" and "d < 2 ^ 63"
  shows "\<exists>S. Seconds d = Finite S \<and>
           scaled ((1 - 1 / 2 ^ 53) * (1 - 1 / 2 ^ 53) * (1 - 1 / 2 ^ 53))
                  ((1 + 1 / 2 ^ 53) * (1 + 1 / 2 ^ 53) * (1 + 1 / 2 ^ 53))
                  (of_int d / 1000000000) S"
proof -
  let ?lo = "1 - 1 / 2 ^ 53 :: rat" and ?hi = "1 + 1 / 2 ^ 53 :: rat"
  define sec where "sec = d div 1000000000"
  define nsec where "nsec = d mod 1000000000"
  have sd: "d sdiv 1000000000 = sec" "d smod 1000000000 = nsec"
    using sdiv_smod_nonneg [OF assms(1)] by (simp_all add: sec_def nsec_def)
  have sec: "0 \<le> sec" "sec \<le> 2 ^ 63"
  proof -
    show "0 \<le> sec" using assms(1) by (simp add: sec_def)
    have "sec \<le> 2 ^ 63 div 1000000000"
      using assms(2) unfolding sec_def by (intro zdiv_mono1) simp_all
    then show "sec \<le> 2 ^ 63" by simp
  qed
  have nsec: "0 \<le> nsec" "nsec < 1000000000" by (simp_all add: nsec_def)
  have d: "d = sec * 1000000000 + nsec" by (simp add: sec_def nsec_def)
  have D: "(of_int d :: rat) / 1000000000 = of_int sec + of_int nsec / 1000000000"
    by (simp add: d field_simps)
  obtain A where A: "float64_of_int sec = Finite A" "scaled ?lo ?hi (of_int sec) A"
    using float64_of_int_scaled [of sec] sec by auto
  obtain B where B: "float64_of_int nsec = Finite B" "scaled ?lo ?hi (of_int nsec) B"
    using float64_of_int_scaled [of nsec] nsec by auto
  have q0: "scaled ?lo ?hi (of_int nsec / 1000000000) (B / 1000000000)"
    using B(2) by (rule scaled_div_const) simp
  have n0: "(0 :: rat) \<le> of_int nsec / 1000000000" using nsec(1) by simp
  have "\<exists>y. round64 (B / 1000000000) = Finite y \<and>
          scaled (?lo * ?lo) (?hi * ?hi) (of_int nsec / 1000000000) y"
    using q0 n0
  proof (rule round64_step)
    show "of_int nsec / 1000000000 = (0 :: rat) \<or> 1 / 2 ^ 150 \<le> (of_int nsec :: rat) / 1000000000"
    proof (cases "nsec = 0")
      case True
      then show ?thesis by simp
    next
      case False
      with nsec(1) have "1 \<le> nsec" by simp
      then have "(of_int 1 :: rat) \<le> of_int nsec" by (simp only: of_int_le_iff)
      then have "(1 :: rat) / 1000000000 \<le> of_int nsec / 1000000000"
        by (simp add: divide_right_mono)
      moreover have "(1 :: rat) / 2 ^ 150 \<le> 1 / 1000000000" by simp
      ultimately show ?thesis by linarith
    qed
    have "(of_int nsec :: rat) \<le> of_int 1000000000" using nsec(2) by simp
    then have "(of_int nsec :: rat) / 1000000000 \<le> 1" by simp
    then show "(of_int nsec :: rat) / 1000000000 \<le> 2 ^ 150" by simp
    show "1 / 2 ^ 10 \<le> ?lo" by simp
    show "?hi \<le> 2 ^ 10" by simp
  qed
  then obtain Q where Q: "round64 (B / 1000000000) = Finite Q"
    "scaled (?lo * ?lo) (?hi * ?hi) (of_int nsec / 1000000000) Q" by blast
  have s0: "scaled (?lo * ?lo) (?hi * ?hi) (of_int sec + of_int nsec / 1000000000) (A + Q)"
    using _ n0 A(2) Q(2) by (rule scaled_add) (use sec in simp_all)
  have x0: "(0 :: rat) \<le> of_int sec + of_int nsec / 1000000000"
    using sec(1) n0 by simp
  have "\<exists>y. round64 (A + Q) = Finite y \<and>
          scaled (?lo * ?lo * ?lo) (?hi * ?hi * ?hi) (of_int sec + of_int nsec / 1000000000) y"
    using s0 x0
  proof (rule round64_step)
    show "of_int sec + of_int nsec / 1000000000 = (0 :: rat) \<or>
          1 / 2 ^ 150 \<le> (of_int sec :: rat) + of_int nsec / 1000000000"
    proof (cases "d = 0")
      case True
      then show ?thesis by (simp add: sec_def nsec_def)
    next
      case False
      with assms(1) have "1 \<le> d" by simp
      then have "(of_int 1 :: rat) \<le> of_int d" by (simp only: of_int_le_iff)
      then have "(1 :: rat) / 1000000000 \<le> of_int d / 1000000000"
        by (simp add: divide_right_mono)
      moreover have "(1 :: rat) / 2 ^ 150 \<le> 1 / 1000000000" by simp
      ultimately show ?thesis unfolding D by linarith
    qed
    have "(of_int d :: rat) \<le> of_int (2 ^ 63)" using assms(2) by simp
    then have "(of_int d :: rat) / 1000000000 \<le> 2 ^ 63" by simp
    moreover have "(2 :: rat) ^ 63 \<le> 2 ^ 150" by simp
    ultimately show "(of_int sec :: rat) + of_int nsec / 1000000000 \<le> 2 ^ 150"
      unfolding D by linarith
    show "1 / 2 ^ 10 \<le> ?lo * ?lo" by simp
    show "?hi * ?hi \<le> 2 ^ 10" by simp
  qed
  then obtain S where S: "round64 (A + Q) = Finite S"
    "scaled (?lo * ?lo * ?lo) (?hi * ?hi * ?hi) (of_int sec + of_int nsec / 1000000000) S" by blast
  have "Seconds d = Finite S"
    by (simp add: Seconds_def Let_def sd A(1) B(1) Q(1) S(1))
  with S(2) show ?thesis unfolding D by blast
qed

lemma product_scaled:
  assumes "0 <s maxLimit rl" and "0 <s timeLImit rl" and "0 \<le> d" and "d < 2 ^ 63"
  shows "\<exists>p. fmul (Seconds d) (refillRate rl) = Finite p \<and>
           scaled (1 - 1 / 2 ^ 50) (1 + 1 / 2 ^ 50) (spec_quotient rl d) p"
proof -
  let ?lo = "1 - 1 / 2 ^ 53 :: rat" and ?hi = "1 + 1 / 2 ^ 53 :: rat"
  let ?D = "of_int d / 1000000000 :: rat"
  let ?R = "of_int (sint (maxLimit rl)) / of_int (sint (timeLImit rl)) :: rat"
  obtain r where r: "refillRate rl = Finite r"
    "scaled (?lo / ?hi * ?lo) (?hi / ?lo * ?hi) ?R r"
    using refillRate_scaled [OF assms(1,2)] by blast
  obtain S where S: "Seconds d = Finite S"
    "scaled (?lo * ?lo * ?lo) (?hi * ?hi * ?hi) ?D S"
    using Seconds_scaled [OF assms(3,4)] by blast
  have c: "1 \<le> sint (maxLimit rl)" "sint (maxLimit rl) \<le> 2 ^ 63"
    and w: "1 \<le> sint (timeLImit rl)" "sint (timeLImit rl) \<le> 2 ^ 63"
    using assms(1,2) sint_lt [of "maxLimit rl"] sint_lt [of "timeLImit rl"]
    by (simp_all add: word_sless_alt)
  have cr: "(1 :: rat) \<le> of_int (sint (maxLimit rl))" "(of_int (sint (maxLimit rl)) :: rat) \<le> 2 ^ 63"
  proof -
    have "(of_int 1 :: rat) \<le> of_int (sint (maxLimit rl))" using c(1) by (simp only: of_int_le_iff)
    then show "(1 :: rat) \<le> of_int (sint (maxLimit rl))" by simp
    have "(of_int (sint (maxLimit rl)) :: rat) \<le> of_int (2 ^ 63)" using c(2) by (simp only: of_int_le_iff)
    then show "(of_int (sint (maxLimit rl)) :: rat) \<le> 2 ^ 63" by simp
  qed
  have wr: "(1 :: rat) \<le> of_int (sint (timeLImit rl))" "(of_int (sint (timeLImit rl)) :: rat) \<le> 2 ^ 63"
  proof -
    have "(of_int 1 :: rat) \<le> of_int (sint (timeLImit rl))" using w(1) by (simp only: of_int_le_iff)
    then show "(1 :: rat) \<le> of_int (sint (timeLImit rl))" by simp
    have "(of_int (sint (timeLImit rl)) :: rat) \<le> of_int (2 ^ 63)" using w(2) by (simp only: of_int_le_iff)
    then show "(of_int (sint (timeLImit rl)) :: rat) \<le> 2 ^ 63" by simp
  qed
  have Rlo: "1 / 2 ^ 63 \<le> ?R" using cr wr by (intro frac_le) simp_all
  have "?R \<le> 2 ^ 63 / 1" using cr wr by (intro frac_le) simp_all
  then have Rhi: "?R \<le> 2 ^ 63" by simp
  have R0: "0 \<le> ?R" using Rlo by (rule order_trans [rotated]) simp
  have D0: "0 \<le> ?D" using assms(3) by simp
  have "(of_int d :: rat) \<le> of_int (2 ^ 63)" using assms(4) by simp
  then have Dhi: "?D \<le> 2 ^ 63" by simp
  have Dlo: "?D = 0 \<or> 1 / 1000000000 \<le> ?D"
  proof (cases "d = 0")
    case True
    then show ?thesis by simp
  next
    case False
    with assms(3) have "1 \<le> d" by simp
    then have "(of_int 1 :: rat) \<le> of_int d" by (simp only: of_int_le_iff)
    then show ?thesis by (simp add: divide_right_mono)
  qed
  have p0: "scaled ((?lo * ?lo * ?lo) * (?lo / ?hi * ?lo)) ((?hi * ?hi * ?hi) * (?hi / ?lo * ?hi))
              (?D * ?R) (S * r)"
    using D0 R0 _ _ S(2) r(2) by (rule scaled_mult) simp_all
  have X0: "0 \<le> ?D * ?R" using D0 R0 by (rule mult_nonneg_nonneg)
  have "\<exists>y. round64 (S * r) = Finite y \<and>
          scaled ((?lo * ?lo * ?lo) * (?lo / ?hi * ?lo) * ?lo) ((?hi * ?hi * ?hi) * (?hi / ?lo * ?hi) * ?hi)
            (?D * ?R) y"
    using p0 X0
  proof (rule round64_step)
    show "?D * ?R = 0 \<or> 1 / 2 ^ 150 \<le> ?D * ?R"
    proof (cases "?D = 0")
      case True
      then show ?thesis by simp
    next
      case False
      with Dlo have "1 / 1000000000 \<le> ?D" by simp
      then have "(1 / 1000000000) * (1 / 2 ^ 63) \<le> ?D * ?R"
        using Rlo by (intro mult_mono) simp_all
      moreover have "(1 :: rat) / 2 ^ 150 \<le> (1 / 1000000000) * (1 / 2 ^ 63)" by simp
      ultimately show ?thesis by linarith
    qed
    have "?D * ?R \<le> 2 ^ 63 * 2 ^ 63" using Dhi Rhi D0 R0 by (intro mult_mono) simp_all
    moreover have "(2 :: rat) ^ 63 * 2 ^ 63 \<le> 2 ^ 150" by simp
    ultimately show "?D * ?R \<le> 2 ^ 150" by linarith
    show "1 / 2 ^ 10 \<le> (?lo * ?lo * ?lo) * (?lo / ?hi * ?lo)" by simp
    show "(?hi * ?hi * ?hi) * (?hi / ?lo * ?hi) \<le> 2 ^ 10" by simp
  qed
  then obtain p where p: "round64 (S * r) = Finite p"
    "scaled ((?lo * ?lo * ?lo) * (?lo / ?hi * ?lo) * ?lo) ((?hi * ?hi * ?hi) * (?hi / ?lo * ?hi) * ?hi)
       (?D * ?R) p" by blast
  have "scaled (1 - 1 / 2 ^ 50) (1 + 1 / 2 ^ 50) (?D * ?R) p"
    using X0 p(2)
  proof (rule scaled_weaken)
    show "1 - 1 / 2 ^ 50 \<le> (?lo * ?lo * ?lo) * (?lo / ?hi * ?lo) * ?lo" by simp
    show "(?hi * ?hi * ?hi) * (?hi / ?lo * ?hi) * ?hi \<le> 1 + 1 / 2 ^ 50" by simp
  qed
  moreover have "spec_quotient rl d = ?D * ?R" by (simp add: spec_quotient_def)
  moreover have "fmul (Seconds d) (refillRate rl) = Finite p" by (simp add: S(1) r(1) p(1))
  ultimately show ?thesis by simp
qed

lemma Since_nonneg:
  assumes "t \<le> now"
  shows "0 \<le> Since now t" and "Since now t < 2 ^ 63"
  using assms by (simp_all add: Since_def)

lemma tokensToAdd_spec_bounds:
  assumes "0 <s maxLimit rl" and "0 <s timeLImit rl" and "0 \<le> d" and "d < 2 ^ 63"
    and "spec_quotient rl d * (1 + 1 / 2 ^ 50) < 2 ^ 63"
  shows "\<lfloor>spec_quotient rl d * (1 - 1 / 2 ^ 50)\<rfloor> \<le> sint (tokensToAdd conv rl d) \<and>
         sint (tokensToAdd conv rl d) \<le> \<lfloor>spec_quotient rl d * (1 + 1 / 2 ^ 50)\<rfloor>"
proof -
  define X where "X = spec_quotient rl d"
  obtain p where p: "fmul (Seconds d) (refillRate rl) = Finite p"
    "scaled (1 - 1 / 2 ^ 50) (1 + 1 / 2 ^ 50) X p"
    using product_scaled [OF assms(1-4)] unfolding X_def by blast
  from p(2) have lo: "X * (1 - 1 / 2 ^ 50) \<le> p" and hi: "p \<le> X * (1 + 1 / 2 ^ 50)"
    by (simp_all add: scaled_def)
  have p0: "0 \<le> p"
  proof (rule ccontr)
    assume "\<not> 0 \<le> p"
    then have n: "p < 0" by simp
    with lo have "X * (1 - 1 / 2 ^ 50) < 0" by linarith
    then have "X < 0" by (simp add: mult_less_0_iff)
    then have "X * (1 + 1 / 2 ^ 50) < X * (1 - 1 / 2 ^ 50)"
      by (intro mult_strict_left_mono_neg) simp_all
    with lo hi show False by linarith
  qed
  have t: "trunc p = \<lfloor>p\<rfloor>" using p0 by (simp add: trunc_def)
  have f0: "0 \<le> \<lfloor>p\<rfloor>" using p0 by simp
  have "p < 2 ^ 63" using hi assms(5) by (simp add: X_def)
  then have "p < of_int (2 ^ 63)" by simp
  then have "\<lfloor>p\<rfloor> < 2 ^ 63" by (simp only: floor_less_iff)
  with f0 have rg: "- (2 ^ 63) \<le> \<lfloor>p\<rfloor> \<and> \<lfloor>p\<rfloor> < 2 ^ 63" by simp
  then have "tokensToAdd conv rl d = word_of_int \<lfloor>p\<rfloor>"
    by (simp add: tokensToAdd_def p(1) int_of_float64_def Let_def t)
  moreover have "sint (word_of_int \<lfloor>p\<rfloor> :: 64 word) = \<lfloor>p\<rfloor>"
    using rg by (simp add: sint_sbintrunc' signed_take_bit_int_eq_self)
  ultimately have "sint (tokensToAdd conv rl d) = \<lfloor>p\<rfloor>" by simp
  moreover have "\<lfloor>X * (1 - 1 / 2 ^ 50)\<rfloor> \<le> \<lfloor>p\<rfloor>" using lo by (rule floor_mono)
  moreover have "\<lfloor>p\<rfloor> \<le> \<lfloor>X * (1 + 1 / 2 ^ 50)\<rfloor>" using hi by (rule floor_mono)
  ultimately show ?thesis by (simp add: X_def)
qed

lemma spec_quotient_nonneg:
  assumes "0 <s maxLimit rl" and "0 <s timeLImit rl" and "0 \<le> d"
  shows "0 \<le> spec_quotient rl d"
proof -
  have "0 < sint (maxLimit rl)" "0 < sint (timeLImit rl)"
    using assms(1,2) by (simp_all add: word_sless_alt)
  then have "(0 :: rat) < of_int (sint (maxLimit rl))" "(0 :: rat) < of_int (sint (timeLImit rl))"
    by (simp_all only: of_int_0_less_iff)
  moreover have "(0 :: rat) \<le> of_int d / 1000000000" using assms(3) by simp
  ultimately show ?thesis
    unfolding spec_quotient_def by (intro divide_nonneg_pos mult_nonneg_nonneg) simp_all
qed

lemma tokensToAdd_below_one:
  assumes "0 <s maxLimit rl" and "0 <s timeLImit rl" and "0 \<le> d" and "d < 2 ^ 63"
    and "spec_quotient rl d * (1 + 1 / 2 ^ 50) < 1"
  shows "tokensToAdd conv rl d = 0"
proof -
  have "spec_quotient rl d * (1 + 1 / 2 ^ 50) < 2 ^ 63"
    using assms(5) by (rule less_trans) simp
  note b = tokensToAdd_spec_bounds [OF assms(1-4) this, of conv]
  have "0 \<le> spec_quotient rl d * (1 - 1 / 2 ^ 50)"
    using spec_quotient_nonneg [OF assms(1-3)] by (intro mult_nonneg_nonneg) simp_all
  then have "0 \<le> \<lfloor>spec_quotient rl d * (1 - 1 / 2 ^ 50)\<rfloor>" by simp
  moreover have "\<lfloor>spec_quotient rl d * (1 + 1 / 2 ^ 50)\<rfloor> < 1"
    using assms(5) by (simp add: floor_less_iff)
  ultimately have "sint (tokensToAdd conv rl d) = 0" using b by linarith
  then have "word_of_int (sint (tokensToAdd conv rl d)) = (0 :: 64 word)" by simp
  then show ?thesis by simp
qed

section \<open>The registry and the heap\<close>

lemma NewRateLimiter_sel:
  "maxLimit (NewRateLimiter c w) = c" "timeLImit (NewRateLimiter c w) = w"
  "requests (NewRateLimiter c w) = Map.empty"
  by (simp_all add: NewRateLimiter_def)

lemma Allow_new:
  assumes "requests rl k = None"
  shows "Allow conv now1 now2 k (h, rl) =
           (True, \<lparr>cells = (cells h)(fresh h := \<lparr>lastSeen = now1, tokenCount = maxLimit rl - 1\<rparr>),
                   fresh = Suc (fresh h)\<rparr>,
            rl\<lparr>requests := (requests rl)(k \<mapsto> fresh h)\<rparr>)"
  using assms by (simp add: Allow_def new_def)

lemma Allow_old:
  assumes "requests rl k = Some p"
  shows "Allow conv now1 now2 k (h, rl) =
           (fst (Allow_existing conv rl now1 now2 (cells h p)),
            h\<lparr>cells := (cells h)(p := snd (Allow_existing conv rl now1 now2 (cells h p)))\<rparr>, rl)"
  using assms by (simp add: Allow_def split_beta)

lemma Allow_config:
  "maxLimit (snd (snd (Allow conv now1 now2 k s))) = maxLimit (snd s) \<and>
   timeLImit (snd (snd (Allow conv now1 now2 k s))) = timeLImit (snd s)"
proof -
  obtain h rl where s: "s = (h, rl)" by (cases s)
  show ?thesis
  proof (cases "requests rl k")
    case None
    then show ?thesis by (simp add: s Allow_new)
  next
    case (Some p)
    then show ?thesis by (simp add: s Allow_old)
  qed
qed

lemma Allow_rl_old:
  assumes "bucket s k = Some m"
  shows "snd (snd (Allow conv now1 now2 k s)) = snd s"
proof -
  obtain h rl where s: "s = (h, rl)" by (cases s)
  from assms s obtain p where "requests rl k = Some p" by (auto simp: bucket_def)
  then show ?thesis by (simp add: s Allow_old)
qed

lemma wf_init: "wf (h, NewRateLimiter c w)"
  by (simp add: wf_def NewRateLimiter_def)

lemma wf_Allow:
  assumes "wf s"
  shows "wf (snd (Allow conv now1 now2 k s))"
proof (cases s)
  case (Pair h rl)
  show ?thesis
  proof (cases "requests rl k")
    case None
    with assms Pair show ?thesis
      by (auto simp: Allow_new wf_def less_Suc_eq split: if_splits)
  next
    case (Some p)
    with assms Pair show ?thesis
      by (simp add: Allow_old wf_def)
  qed
qed

lemma wf_run:
  assumes "wf s"
  shows "wf (snd (run conv cs s))"
  using assms
proof (induction cs arbitrary: s)
  case Nil
  then show ?case by simp
next
  case (Cons c cs)
  obtain k n1 n2 where c: "c = (k, n1, n2)" by (cases c)
  from Cons.prems have "wf (snd (Allow conv n1 n2 k s))" by (rule wf_Allow)
  from Cons.IH [OF this] show ?case
    by (simp add: c split_beta)
qed

lemma bucket_Allow_new:
  assumes "wf s" and "bucket s k = None"
  shows "fst (Allow conv now1 now2 k s) = True"
    and "bucket (snd (Allow conv now1 now2 k s)) =
           (bucket s)(k \<mapsto> \<lparr>lastSeen = now1, tokenCount = maxLimit (snd s) - 1\<rparr>)"
proof -
  obtain h rl where s: "s = (h, rl)" by (cases s)
  from assms(2) s have none: "requests rl k = None" by (simp add: bucket_def)
  show "fst (Allow conv now1 now2 k s) = True"
    by (simp add: s Allow_new [OF none])
  have "\<And>k' p. requests rl k' = Some p \<Longrightarrow> p \<noteq> fresh h"
    using assms(1) s by (auto simp: wf_def)
  then show "bucket (snd (Allow conv now1 now2 k s)) =
           (bucket s)(k \<mapsto> \<lparr>lastSeen = now1, tokenCount = maxLimit (snd s) - 1\<rparr>)"
    by (auto simp: s Allow_new [OF none] bucket_def fun_eq_iff map_option_case split: option.splits)
qed

lemma bucket_Allow_old:
  assumes "wf s" and "bucket s k = Some m"
  shows "fst (Allow conv now1 now2 k s) = fst (Allow_existing conv (snd s) now1 now2 m)"
    and "bucket (snd (Allow conv now1 now2 k s)) =
           (bucket s)(k \<mapsto> snd (Allow_existing conv (snd s) now1 now2 m))"
proof -
  obtain h rl where s: "s = (h, rl)" by (cases s)
  from assms(2) s obtain p where p: "requests rl k = Some p" and m: "cells h p = m"
    by (auto simp: bucket_def)
  show "fst (Allow conv now1 now2 k s) = fst (Allow_existing conv (snd s) now1 now2 m)"
    by (simp add: s Allow_old [OF p] m)
  have inj: "requests rl k' \<noteq> Some p" if "k' \<noteq> k" for k'
    using assms(1) s p that unfolding wf_def by auto
  show "bucket (snd (Allow conv now1 now2 k s)) =
           (bucket s)(k \<mapsto> snd (Allow_existing conv (snd s) now1 now2 m))"
  proof (rule ext)
    fix k'
    show "bucket (snd (Allow conv now1 now2 k s)) k' =
           ((bucket s)(k \<mapsto> snd (Allow_existing conv (snd s) now1 now2 m))) k'"
    proof (cases "k' = k")
      case True
      then show ?thesis by (simp add: s Allow_old [OF p] m bucket_def p)
    next
      case False
      from inj [OF False] show ?thesis
        using False by (cases "requests rl k'") (simp_all add: s Allow_old [OF p] bucket_def)
    qed
  qed
qed

lemma bucket_Allow_same:
  assumes "bucket s k = Some m"
  shows "fst (Allow conv now1 now2 k s) = fst (Allow_existing conv (snd s) now1 now2 m) \<and>
         bucket (snd (Allow conv now1 now2 k s)) k =
           Some (snd (Allow_existing conv (snd s) now1 now2 m))"
proof -
  obtain h rl where s: "s = (h, rl)" by (cases s)
  from assms s obtain p where p: "requests rl k = Some p" and m: "cells h p = m"
    by (auto simp: bucket_def)
  show ?thesis by (simp add: s Allow_old [OF p] m bucket_def p)
qed

lemma bucket_Allow_fresh:
  assumes "bucket s k = None"
  shows "bucket (snd (Allow conv now1 now2 k s)) k \<noteq> None"
proof -
  obtain h rl where s: "s = (h, rl)" by (cases s)
  from assms s have "requests rl k = None" by (simp add: bucket_def)
  then show ?thesis by (simp add: s Allow_new bucket_def)
qed

lemma first_Allow_aux:
  assumes "requests (snd s) k = None"
  shows "fst (Allow conv now1 now2 k s) = True"
proof -
  obtain h rl where s: "s = (h, rl)" by (cases s)
  from assms show ?thesis by (simp add: s Allow_new)
qed

lemma run_config:
  "maxLimit (snd (snd (run conv cs s))) = maxLimit (snd s) \<and>
   timeLImit (snd (snd (run conv cs s))) = timeLImit (snd s)"
proof (induction cs arbitrary: s)
  case Nil
  then show ?case by simp
next
  case (Cons c cs)
  obtain k n1 n2 where c: "c = (k, n1, n2)" by (cases c)
  show ?case
    using Cons.IH [of "snd (Allow conv n1 n2 k s)"] Allow_config [of conv n1 n2 k s]
    by (simp add: c split_beta)
qed

lemma run_append:
  "run conv (xs @ ys) s =
     (fst (run conv xs s) @ fst (run conv ys (snd (run conv xs s))),
      snd (run conv ys (snd (run conv xs s))))"
proof (induction xs arbitrary: s)
  case Nil
  then show ?case by simp
next
  case (Cons c xs)
  obtain k n1 n2 where c: "c = (k, n1, n2)" by (cases c)
  show ?case
    using Cons.IH [of "snd (Allow conv n1 n2 k s)"] by (simp add: c split_beta)
qed

lemma Allow_frame:
  assumes "wf s" and "a \<noteq> b"
  shows "bucket (snd (Allow conv now1 now2 a s)) b = bucket s b"
proof (cases "bucket s a")
  case None
  from bucket_Allow_new(2) [OF assms(1) None, of conv now1 now2] assms(2)
  show ?thesis by simp
next
  case (Some m)
  from bucket_Allow_old(2) [OF assms(1) Some, of conv now1 now2] assms(2)
  show ?thesis by simp
qed

lemma run_frame:
  assumes "wf s" and "\<forall>c \<in> set cs. fst c \<noteq> b"
  shows "bucket (snd (run conv cs s)) b = bucket s b"
  using assms
proof (induction cs arbitrary: s)
  case Nil
  then show ?case by simp
next
  case (Cons c cs)
  obtain a n1 n2 where c: "c = (a, n1, n2)" by (cases c)
  from Cons.prems(2) c have ab: "a \<noteq> b" by simp
  have "bucket (snd (run conv cs (snd (Allow conv n1 n2 a s)))) b =
          bucket (snd (Allow conv n1 n2 a s)) b"
    using Cons.prems(2) by (intro Cons.IH wf_Allow Cons.prems(1)) simp
  then show ?case
    using Allow_frame [OF Cons.prems(1) ab, of conv n1 n2] by (simp add: c split_beta)
qed

section \<open>One call on an existing bucket\<close>

lemma sint_dec:
  fixes c :: "64 word"
  assumes "0 <s c"
  shows "sint (c - 1) = sint c - 1"
proof -
  from assms have "0 < sint c" by (simp add: word_sless_alt)
  moreover have "sint c < 2 ^ 63" using sint_lt [of c] by simp
  ultimately show ?thesis
    by (simp add: sint_word_ariths signed_take_bit_int_eq_self)
qed

lemma word_dec_neq:
  fixes c :: "64 word"
  shows "c - 1 \<noteq> c"
proof
  assume "c - 1 = c"
  then have "c - 1 - c = c - c" by simp
  then show False by simp
qed

lemma Allow_existing_no_refill:
  assumes "\<not> 0 <s tokensToAdd conv rl (Since now1 (lastSeen m))"
    and "\<not> maxLimit rl <s tokenCount m"
  shows "Allow_existing conv rl now1 now2 m =
           (if 0 <s tokenCount m then (True, m\<lparr>tokenCount := tokenCount m - 1\<rparr>) else (False, m))"
  using assms by (simp add: Allow_existing_def)

lemma Allow_existing_changes:
  assumes "timeLImit rl \<noteq> 0" and "lastSeen m \<le> now1" and "now1 \<le> now2"
    and "fst (Allow_existing conv rl now1 now2 m)"
  shows "snd (Allow_existing conv rl now1 now2 m) \<noteq> m"
proof (cases "0 <s tokensToAdd conv rl (Since now1 (lastSeen m))")
  case True
  have "lastSeen m \<noteq> now1"
  proof
    assume "lastSeen m = now1"
    then have "tokensToAdd conv rl (Since now1 (lastSeen m)) = 0"
      by (simp add: Since_self tokensToAdd_zero [OF assms(1)])
    with True show False by simp
  qed
  with assms(2,3) have "lastSeen m \<noteq> now2" by simp
  moreover have "lastSeen (snd (Allow_existing conv rl now1 now2 m)) = now2"
    using True by (simp add: Allow_existing_def Let_def)
  ultimately show ?thesis by auto
next
  case False
  show ?thesis
  proof (cases "maxLimit rl <s tokenCount m")
    case clamp: True
    from assms(4) False clamp have pos: "0 <s maxLimit rl"
      by (simp add: Allow_existing_def Let_def split: if_splits)
    have "tokenCount (snd (Allow_existing conv rl now1 now2 m)) = maxLimit rl - 1"
      using False clamp pos by (simp add: Allow_existing_def Let_def)
    moreover have "sint (maxLimit rl - 1) < sint (tokenCount m)"
      using sint_dec [OF pos] clamp by (simp add: word_sless_alt)
    ultimately show ?thesis by auto
  next
    case noclamp: False
    from assms(4) False noclamp have "0 <s tokenCount m"
      by (simp add: Allow_existing_def Let_def split: if_splits)
    then have "tokenCount (snd (Allow_existing conv rl now1 now2 m)) = tokenCount m - 1"
      using False noclamp by (simp add: Allow_existing_def Let_def)
    then show ?thesis using word_dec_neq [of "tokenCount m"] by auto
  qed
qed

lemma Allow_existing_in_range:
  assumes "0 <s maxLimit rl"
    and "0 \<le>s tokenCount m" and "tokenCount m \<le>s maxLimit rl"
    and "0 <s tokensToAdd conv rl (Since now1 (lastSeen m)) \<longrightarrow>
           sint (tokenCount m) + sint (tokensToAdd conv rl (Since now1 (lastSeen m))) < 2 ^ 63"
  shows "0 \<le>s tokenCount (snd (Allow_existing conv rl now1 now2 m)) \<and>
         tokenCount (snd (Allow_existing conv rl now1 now2 m)) \<le>s maxLimit rl \<and>
         (\<not> fst (Allow_existing conv rl now1 now2 m) \<longrightarrow>
            snd (Allow_existing conv rl now1 now2 m) = m \<and> tokenCount m = 0)"
proof -
  define add where "add = tokensToAdd conv rl (Since now1 (lastSeen m))"
  define tc1 where "tc1 = (if 0 <s add then tokenCount m + add else tokenCount m)"
  define tc2 where "tc2 = (if maxLimit rl <s tc1 then maxLimit rl else tc1)"
  have cap: "0 < sint (maxLimit rl)" using assms(1) by (simp add: word_sless_alt)
  have lo: "0 \<le> sint (tokenCount m)" and hi: "sint (tokenCount m) \<le> sint (maxLimit rl)"
    using assms(2,3) by (simp_all add: word_sle_eq)
  have s1: "sint tc1 = (if 0 <s add then sint (tokenCount m) + sint add else sint (tokenCount m))"
  proof (cases "0 <s add")
    case True
    then have p: "0 < sint add" by (simp add: word_sless_alt)
    from True assms(4) have "sint (tokenCount m) + sint add < 2 ^ 63" by (simp add: add_def)
    then have "sint (tokenCount m + add) = sint (tokenCount m) + sint add"
      using lo p by (simp add: sint_word_ariths signed_take_bit_int_eq_self)
    then show ?thesis using True by (simp add: tc1_def)
  next
    case False
    then show ?thesis by (simp add: tc1_def)
  qed
  have s2: "sint tc2 = min (sint (maxLimit rl)) (sint tc1)"
    by (simp add: tc2_def word_sless_alt min_def)
  have r: "Allow_existing conv rl now1 now2 m =
      (if 0 <s tc2
       then (True, \<lparr>lastSeen = (if 0 <s add then now2 else lastSeen m), tokenCount = tc2 - 1\<rparr>)
       else (False, \<lparr>lastSeen = (if 0 <s add then now2 else lastSeen m), tokenCount = tc2\<rparr>))"
    by (cases m) (simp add: Allow_existing_def Let_def add_def tc1_def tc2_def)
  have tc1_lo: "sint (tokenCount m) \<le> sint tc1"
    using s1 by (simp add: word_sless_alt)
  show ?thesis
  proof (cases "0 <s tc2")
    case True
    then have "sint (tc2 - 1) = sint tc2 - 1" by (rule sint_dec)
    moreover have "0 < sint tc2" using True by (simp add: word_sless_alt)
    ultimately show ?thesis
      using r True s2 by (simp add: word_sle_eq)
  next
    case False
    then have z: "sint tc2 \<le> 0" by (simp add: word_sless_alt)
    with s2 cap have "sint tc1 \<le> 0" by (simp add: min_def split: if_splits)
    with tc1_lo lo have e: "sint (tokenCount m) = 0" "sint tc1 = 0" by simp_all
    have noadd: "\<not> 0 <s add"
    proof
      assume a: "0 <s add"
      then have "0 < sint add" by (simp add: word_sless_alt)
      with s1 a e show False by simp
    qed
    have t0: "tokenCount m = 0"
    proof -
      from e(1) have "word_of_int (sint (tokenCount m)) = (0 :: 64 word)" by simp
      then show ?thesis by simp
    qed
    have "tc2 = tokenCount m"
      using noadd hi by (simp add: tc2_def tc1_def word_sless_alt)
    then show ?thesis
      using r False noadd t0 cap by (cases m) (simp add: word_sle_eq)
  qed
qed

section \<open>Back-to-back calls\<close>

lemma burst:
  assumes "wf s" and "bucket s k = Some m"
    and "tokensToAdd conv (snd s) (Since t (lastSeen m)) = 0"
    and "0 \<le>s tokenCount m" and "tokenCount m \<le>s maxLimit (snd s)"
  shows "fst (run conv (replicate n (k, t, t')) s) =
           replicate (min n (nat (sint (tokenCount m)))) True @
           replicate (n - nat (sint (tokenCount m))) False \<and>
         bucket (snd (run conv (replicate n (k, t, t')) s)) k =
           Some (m\<lparr>tokenCount := tokenCount m - of_nat (min n (nat (sint (tokenCount m))))\<rparr>)"
  using assms
proof (induction n arbitrary: s m)
  case 0
  then show ?case by simp
next
  case (Suc n)
  let ?s' = "snd (Allow conv t t' k s)"
  have ex: "Allow_existing conv (snd s) t t' m =
           (if 0 <s tokenCount m then (True, m\<lparr>tokenCount := tokenCount m - 1\<rparr>) else (False, m))"
    using Suc.prems(3,5) by (intro Allow_existing_no_refill) (simp_all add: word_sless_alt word_sle_eq)
  have wf': "wf ?s'" using Suc.prems(1) by (rule wf_Allow)
  have rl': "snd ?s' = snd s" using Suc.prems(2) by (rule Allow_rl_old)
  show ?case
  proof (cases "0 <s tokenCount m")
    case True
    let ?m' = "m\<lparr>tokenCount := tokenCount m - 1\<rparr>"
    have b: "fst (Allow conv t t' k s) = True"
      using bucket_Allow_old(1) [OF Suc.prems(1,2)] ex True by simp
    have bk: "bucket ?s' k = Some ?m'"
      using bucket_Allow_old(2) [OF Suc.prems(1,2)] ex True by simp
    have sd: "sint (tokenCount ?m') = sint (tokenCount m) - 1"
      using sint_dec [OF True] by simp
    have pos: "0 < sint (tokenCount m)" using True by (simp add: word_sless_alt)
    have "fst (run conv (replicate n (k, t, t')) ?s') =
           replicate (min n (nat (sint (tokenCount ?m')))) True @
           replicate (n - nat (sint (tokenCount ?m'))) False \<and>
         bucket (snd (run conv (replicate n (k, t, t')) ?s')) k =
           Some (?m'\<lparr>tokenCount := tokenCount ?m' - of_nat (min n (nat (sint (tokenCount ?m'))))\<rparr>)"
      using wf' bk
    proof (rule Suc.IH)
      show "tokensToAdd conv (snd ?s') (Since t (lastSeen ?m')) = 0"
        using Suc.prems(3) by (simp add: rl')
      show "0 \<le>s tokenCount ?m'" using pos sd by (simp add: word_sle_eq)
      show "tokenCount ?m' \<le>s maxLimit (snd ?s')"
        using Suc.prems(5) sd by (simp add: word_sle_eq rl')
    qed
    moreover have "nat (sint (tokenCount m)) = Suc (nat (sint (tokenCount ?m')))"
      using pos sd by simp
    ultimately show ?thesis
      using b by (simp add: split_beta)
  next
    case False
    have b: "fst (Allow conv t t' k s) = False"
      using bucket_Allow_old(1) [OF Suc.prems(1,2)] ex False by simp
    have bk: "bucket ?s' k = Some m"
      using bucket_Allow_old(2) [OF Suc.prems(1,2)] ex False Suc.prems(2) by (simp add: fun_upd_idem)
    have z: "sint (tokenCount m) = 0"
      using False Suc.prems(4) by (simp add: word_sless_alt word_sle_eq)
    have "fst (run conv (replicate n (k, t, t')) ?s') =
           replicate (min n (nat (sint (tokenCount m)))) True @
           replicate (n - nat (sint (tokenCount m))) False \<and>
         bucket (snd (run conv (replicate n (k, t, t')) ?s')) k =
           Some (m\<lparr>tokenCount := tokenCount m - of_nat (min n (nat (sint (tokenCount m))))\<rparr>)"
      using wf' bk
    proof (rule Suc.IH)
      show "tokensToAdd conv (snd ?s') (Since t (lastSeen m)) = 0"
        using Suc.prems(3) by (simp add: rl')
      show "0 \<le>s tokenCount m" by (rule Suc.prems(4))
      show "tokenCount m \<le>s maxLimit (snd ?s')"
        using Suc.prems(5) by (simp add: rl')
    qed
    then show ?thesis
      using b z by (simp add: split_beta)
  qed
qed

text \<open>The state after six back-to-back calls on a fresh key of a limiter with capacity 5
  and window 60.\<close>

lemma exhausted_5_60:
  fixes s :: "Heap \<times> RateLimiter" and conv :: "float64 \<Rightarrow> 64 word"
    and k :: string and t :: Time
  assumes "wf s" and "maxLimit (snd s) = 5" and "timeLImit (snd s) = 60"
    and "bucket s k = None"
  defines "s6 \<equiv> snd (run conv (replicate 6 (k, t, t)) s)"
  shows "fst (run conv (replicate 6 (k, t, t)) s) = [True, True, True, True, True, False]"
    and "bucket s6 k = Some \<lparr>lastSeen = t, tokenCount = 0\<rparr>"
    and "wf s6" and "maxLimit (snd s6) = 5" and "timeLImit (snd s6) = 60"
proof -
  let ?s1 = "snd (Allow conv t t k s)"
  let ?m = "\<lparr>lastSeen = t, tokenCount = 4 :: 64 word\<rparr>"
  note wf0 = assms(1) and none = assms(4)
  have b1: "fst (Allow conv t t k s) = True"
    using bucket_Allow_new(1) [OF wf0 none] .
  have bk1: "bucket ?s1 k = Some ?m"
    using bucket_Allow_new(2) [OF wf0 none, of conv t t] by (simp add: assms(2))
  have wf1: "wf ?s1" using wf0 by (rule wf_Allow)
  have cfg1: "maxLimit (snd ?s1) = 5 \<and> timeLImit (snd ?s1) = 60"
    using Allow_config [of conv t t k s] by (simp add: assms(2,3))
  have add0: "tokensToAdd conv (snd ?s1) (Since t (lastSeen ?m)) = 0"
    using tokensToAdd_config [of "snd ?s1" "NewRateLimiter 5 60" conv 0] cfg1
    by (simp add: Since_self tokensToAdd_5_60_zero NewRateLimiter_sel)
  have "fst (run conv (replicate 5 (k, t, t)) ?s1) =
           replicate (min 5 (nat (sint (tokenCount ?m)))) True @
           replicate (5 - nat (sint (tokenCount ?m))) False \<and>
         bucket (snd (run conv (replicate 5 (k, t, t)) ?s1)) k =
           Some (?m\<lparr>tokenCount := tokenCount ?m - of_nat (min 5 (nat (sint (tokenCount ?m))))\<rparr>)"
    using wf1 bk1 add0
  proof (rule burst)
    show "0 \<le>s tokenCount ?m" by (simp add: word_sle_eq)
    show "tokenCount ?m \<le>s maxLimit (snd ?s1)" using cfg1 by (simp add: word_sle_eq)
  qed
  then have r5: "fst (run conv (replicate 5 (k, t, t)) ?s1) = [True, True, True, True, False]"
    and bk6: "bucket (snd (run conv (replicate 5 (k, t, t)) ?s1)) k = Some \<lparr>lastSeen = t, tokenCount = 0\<rparr>"
    by (simp_all add: numeral_eq_Suc)
  have unfold6: "replicate 6 (k, t, t) = (k, t, t) # replicate 5 (k, t, t)"
    by (simp add: numeral_eq_Suc)
  show "fst (run conv (replicate 6 (k, t, t)) s) = [True, True, True, True, True, False]"
    using b1 r5 by (simp add: unfold6 split_beta)
  have s6: "s6 = snd (run conv (replicate 5 (k, t, t)) ?s1)"
    by (simp add: s6_def unfold6 split_beta)
  show "bucket s6 k = Some \<lparr>lastSeen = t, tokenCount = 0\<rparr>"
    using bk6 by (simp add: s6)
  show "wf s6" unfolding s6_def using wf0 by (rule wf_run)
  show "maxLimit (snd s6) = 5" and "timeLImit (snd s6) = 60"
    unfolding s6_def using run_config [of conv "replicate 6 (k, t, t)" s]
    by (simp_all add: assms(2,3))
qed

text \<open>Every state of a limiter made by \<open>NewRateLimiter(5, 60)\<close>.\<close>

lemma reached_5_60:
  "wf (snd (run conv cs (h, NewRateLimiter 5 60)))"
  "maxLimit (snd (snd (run conv cs (h, NewRateLimiter 5 60)))) = 5"
  "timeLImit (snd (snd (run conv cs (h, NewRateLimiter 5 60)))) = 60"
  using wf_run [OF wf_init, of conv cs h 5 60] run_config [of conv cs "(h, NewRateLimiter 5 60)"]
  by (simp_all add: NewRateLimiter_sel)

text \<open>
  Calls for one key at one clock reading, on a new limiter with a positive capacity \<open>c\<close>:
  the first \<open>c\<close> are admitted and every later one is rejected. Executed one after the
  other, \<open>n\<close> such calls admit \<open>min n c\<close>.
\<close>

lemma burst_fresh:
  assumes "0 <s c" and "w \<noteq> 0"
  shows "fst (run conv (replicate n (k, t, t)) (h, NewRateLimiter c w)) =
           replicate (min n (nat (sint c))) True @ replicate (n - nat (sint c)) False"
proof (cases n)
  case 0
  then show ?thesis by simp
next
  case (Suc n')
  let ?s0 = "(h, NewRateLimiter c w)"
  let ?s1 = "snd (Allow conv t t k ?s0)"
  let ?m = "\<lparr>lastSeen = t, tokenCount = c - 1\<rparr>"
  have wf0: "wf ?s0" by (rule wf_init)
  have none: "bucket ?s0 k = None" by (simp add: bucket_def NewRateLimiter_sel)
  have b1: "fst (Allow conv t t k ?s0) = True"
    using bucket_Allow_new(1) [OF wf0 none] .
  have bk1: "bucket ?s1 k = Some ?m"
    using bucket_Allow_new(2) [OF wf0 none, of conv t t] by (simp add: NewRateLimiter_sel)
  have wf1: "wf ?s1" using wf0 by (rule wf_Allow)
  have cfg1: "maxLimit (snd ?s1) = c" "timeLImit (snd ?s1) = w"
    using Allow_config [of conv t t k ?s0] by (simp_all add: NewRateLimiter_sel)
  have add0: "tokensToAdd conv (snd ?s1) (Since t (lastSeen ?m)) = 0"
    using assms(2) by (simp add: Since_self tokensToAdd_zero cfg1)
  have sd: "sint (c - 1) = sint c - 1" using assms(1) by (rule sint_dec)
  have cpos: "0 < sint c" using assms(1) by (simp add: word_sless_alt)
  have "fst (run conv (replicate n' (k, t, t)) ?s1) =
           replicate (min n' (nat (sint (tokenCount ?m)))) True @
           replicate (n' - nat (sint (tokenCount ?m))) False \<and>
         bucket (snd (run conv (replicate n' (k, t, t)) ?s1)) k =
           Some (?m\<lparr>tokenCount := tokenCount ?m - of_nat (min n' (nat (sint (tokenCount ?m))))\<rparr>)"
    using wf1 bk1 add0
  proof (rule burst)
    show "0 \<le>s tokenCount ?m" using sd cpos by (simp add: word_sle_eq)
    show "tokenCount ?m \<le>s maxLimit (snd ?s1)" using sd by (simp add: word_sle_eq cfg1)
  qed
  then have rest: "fst (run conv (replicate n' (k, t, t)) ?s1) =
           replicate (min n' (nat (sint c - 1))) True @ replicate (n' - nat (sint c - 1)) False"
    by (simp add: sd)
  have c: "nat (sint c) = Suc (nat (sint c - 1))" using cpos by simp
  show ?thesis
    using b1 rest by (simp add: Suc split_beta c)
qed

lemma burst_admits_min:
  assumes "0 <s c" and "w \<noteq> 0"
  shows "length (filter (\<lambda>b. b) (fst (run conv (replicate n (k, t, t)) (h, NewRateLimiter c w)))) =
           min n (nat (sint c))"
  by (simp add: burst_fresh [OF assms])

lemma no_refill_run:
  assumes "bucket s k = Some m"
    and "\<forall>c \<in> set ts. tokensToAdd conv (snd s) (Since (fst c) (lastSeen m)) = 0"
  shows "\<exists>m'. bucket (snd (run conv (map (Pair k) ts) s)) k = Some m' \<and>
              lastSeen m' = lastSeen m \<and> snd (snd (run conv (map (Pair k) ts) s)) = snd s"
  using assms
proof (induction ts arbitrary: s m)
  case Nil
  then show ?case by simp
next
  case (Cons c ts)
  obtain n1 n2 where c: "c = (n1, n2)" by (cases c)
  let ?s1 = "snd (Allow conv n1 n2 k s)"
  let ?m1 = "snd (Allow_existing conv (snd s) n1 n2 m)"
  have b1: "bucket ?s1 k = Some ?m1"
    using bucket_Allow_same [OF Cons.prems(1), of conv n1 n2] by simp
  have "tokensToAdd conv (snd s) (Since n1 (lastSeen m)) = 0"
    using Cons.prems(2) by (simp add: c)
  then have ls: "lastSeen ?m1 = lastSeen m"
    by (simp add: Allow_existing_def Let_def)
  have rl: "snd ?s1 = snd s" using Cons.prems(1) by (rule Allow_rl_old)
  have "\<forall>c \<in> set ts. tokensToAdd conv (snd ?s1) (Since (fst c) (lastSeen ?m1)) = 0"
    using Cons.prems(2) by (simp add: rl ls)
  from Cons.IH [OF b1 this] show ?case
    by (simp add: c split_beta ls rl)
qed

section \<open>Capacities that cannot overflow\<close>

text \<open>
  For a capacity of at most 65536 the refill cannot overflow, and the bound on the token
  count holds along every sequence of calls, whatever the clock readings.
\<close>

lemma token_bound_small_capacity:
  assumes "0 <s c" and "c \<le>s 65536" and "w \<noteq> 0"
    and "bucket (snd (run conv cs (h, NewRateLimiter c w))) k = Some m"
  shows "0 \<le>s tokenCount m \<and> tokenCount m \<le>s c"
proof -
  define inv where "inv s \<longleftrightarrow> wf s \<and> maxLimit (snd s) = c \<and> timeLImit (snd s) = w \<and>
      (\<forall>k m. bucket s k = Some m \<longrightarrow> 0 \<le>s tokenCount m \<and> tokenCount m \<le>s c)" for s
  have cpos: "0 < sint c" and cle: "sint c \<le> 65536"
    using assms(1,2) by (simp_all add: word_sless_alt word_sle_eq)
  have step: "inv (snd (Allow conv n1 n2 a s))" if "inv s" for s a n1 n2
  proof -
    from that have wfs: "wf s" and ml: "maxLimit (snd s) = c" and tl: "timeLImit (snd s) = w"
      and rng: "\<And>k m. bucket s k = Some m \<Longrightarrow> 0 \<le>s tokenCount m \<and> tokenCount m \<le>s c"
      by (auto simp: inv_def)
    have cfg: "maxLimit (snd (snd (Allow conv n1 n2 a s))) = c \<and>
               timeLImit (snd (snd (Allow conv n1 n2 a s))) = w"
      using Allow_config [of conv n1 n2 a s] ml tl by simp
    have "0 \<le>s tokenCount m' \<and> tokenCount m' \<le>s c"
      if bk: "bucket (snd (Allow conv n1 n2 a s)) k' = Some m'" for k' m'
    proof (cases "bucket s a")
      case None
      from bk bucket_Allow_new(2) [OF wfs None, of conv n1 n2]
      have "(k' = a \<and> m' = \<lparr>lastSeen = n1, tokenCount = c - 1\<rparr>) \<or> bucket s k' = Some m'"
        by (auto simp: ml split: if_splits)
      then show ?thesis
      proof
        assume "k' = a \<and> m' = \<lparr>lastSeen = n1, tokenCount = c - 1\<rparr>"
        then show ?thesis
          using sint_dec [OF assms(1)] cpos by (simp add: word_sle_eq)
      next
        assume "bucket s k' = Some m'"
        then show ?thesis by (rule rng)
      qed
    next
      case (Some m0)
      let ?m1 = "snd (Allow_existing conv (snd s) n1 n2 m0)"
      from bk bucket_Allow_old(2) [OF wfs Some, of conv n1 n2]
      have "(k' = a \<and> m' = ?m1) \<or> bucket s k' = Some m'"
        by (auto split: if_splits)
      then show ?thesis
      proof
        assume e: "k' = a \<and> m' = ?m1"
        have r0: "0 \<le>s tokenCount m0" "tokenCount m0 \<le>s maxLimit (snd s)"
          using rng [OF Some] by (simp_all add: ml)
        have "\<bar>sint (tokensToAdd conv (snd s) (Since n1 (lastSeen m0)))\<bar> \<le> 2 ^ 61"
          using cpos cle assms(3) by (intro tokensToAdd_bound) (simp_all add: ml tl)
        moreover have "sint (tokenCount m0) \<le> 65536"
          using r0(2) cle by (simp add: word_sle_eq ml)
        ultimately have no: "0 <s tokensToAdd conv (snd s) (Since n1 (lastSeen m0)) \<longrightarrow>
            sint (tokenCount m0) + sint (tokensToAdd conv (snd s) (Since n1 (lastSeen m0))) < 2 ^ 63"
          by auto
        have "0 <s maxLimit (snd s)" using assms(1) by (simp add: ml)
        from Allow_existing_in_range [OF this r0 no, of n2] e
        show ?thesis by (simp add: ml)
      next
        assume "bucket s k' = Some m'"
        then show ?thesis by (rule rng)
      qed
    qed
    then show ?thesis
      using wf_Allow [OF wfs, of conv n1 n2 a] cfg by (simp add: inv_def)
  qed
  have runs: "inv (snd (run conv cs s))" if "inv s" for s
    using that
  proof (induction cs arbitrary: s)
    case Nil
    then show ?case by simp
  next
    case (Cons x xs)
    obtain a n1 n2 where x: "x = (a, n1, n2)" by (cases x)
    from Cons.IH [OF step [OF Cons.prems, of n1 n2 a]] show ?case
      by (simp add: x split_beta)
  qed
  have "inv (h, NewRateLimiter c w)"
    by (simp add: inv_def wf_init NewRateLimiter_sel bucket_def)
  from runs [OF this] assms(4) show ?thesis by (simp add: inv_def)
qed

lemma rejected_unchanged_small_capacity:
  assumes "0 <s c" and "c \<le>s 65536" and "w \<noteq> 0"
    and "bucket (snd (run conv cs (h, NewRateLimiter c w))) k = Some m"
    and "\<not> fst (Allow conv now1 now2 k (snd (run conv cs (h, NewRateLimiter c w))))"
  shows "bucket (snd (Allow conv now1 now2 k (snd (run conv cs (h, NewRateLimiter c w))))) =
           bucket (snd (run conv cs (h, NewRateLimiter c w))) \<and> tokenCount m = 0"
proof -
  let ?s = "snd (run conv cs (h, NewRateLimiter c w))"
  have wfs: "wf ?s" by (intro wf_run wf_init)
  have cfg: "maxLimit (snd ?s) = c" "timeLImit (snd ?s) = w"
    using run_config [of conv cs "(h, NewRateLimiter c w)"] by (simp_all add: NewRateLimiter_sel)
  have r0: "0 \<le>s tokenCount m" "tokenCount m \<le>s maxLimit (snd ?s)"
    using token_bound_small_capacity [OF assms(1-4)] by (simp_all add: cfg)
  have cle: "sint c \<le> 65536" using assms(2) by (simp add: word_sle_eq)
  have cpos: "0 < sint c" using assms(1) by (simp add: word_sless_alt)
  have "\<bar>sint (tokensToAdd conv (snd ?s) (Since now1 (lastSeen m)))\<bar> \<le> 2 ^ 61"
    using cpos cle assms(3) by (intro tokensToAdd_bound) (simp_all add: cfg)
  moreover have "sint (tokenCount m) \<le> 65536"
    using r0(2) cle by (simp add: word_sle_eq cfg)
  ultimately have no: "0 <s tokensToAdd conv (snd ?s) (Since now1 (lastSeen m)) \<longrightarrow>
      sint (tokenCount m) + sint (tokensToAdd conv (snd ?s) (Since now1 (lastSeen m))) < 2 ^ 63"
    by auto
  have "0 <s maxLimit (snd ?s)" using assms(1) by (simp add: cfg)
  note rng = Allow_existing_in_range [OF this r0 no, of now2]
  have "\<not> fst (Allow_existing conv (snd ?s) now1 now2 m)"
    using assms(5) bucket_Allow_old(1) [OF wfs assms(4), of conv now1 now2] by simp
  with rng have same: "snd (Allow_existing conv (snd ?s) now1 now2 m) = m" and z: "tokenCount m = 0"
    by simp_all
  have "bucket (snd (Allow conv now1 now2 k ?s)) = (bucket ?s)(k \<mapsto> m)"
    using bucket_Allow_old(2) [OF wfs assms(4), of conv now1 now2] same by simp
  also have "\<dots> = bucket ?s" using assms(4) by (simp add: fun_upd_idem)
  finally show ?thesis using z by simp
qed

section \<open>The properties\<close>

text \<open>
  C1. The claim: for a positive capacity and window, after every call the token count of
  every bucket lies between 0 and the capacity. The code does not keep it for every
  capacity: it adds the refill to \<open>tokenCount\<close> before it clamps, and the addition can
  wrap around. With capacity \<open>6 * 10^18\<close> and a window of one second, the first call
  leaves \<open>6 * 10^18 - 1\<close> tokens; one second later the refill is \<open>6 * 10^18\<close>, the sum
  exceeds \<open>2^63 - 1\<close> and wraps to a negative count, which the clamp lets through. Where
  the addition cannot overflow the bound holds (\<open>token_bound_small_capacity\<close>).
\<close>

theorem overflow_breaks_token_bound:
  "0 <s maxLimit (snd huge) \<and> 0 <s timeLImit (snd huge) \<and>
   map_option (sint \<circ> tokenCount) (bucket huge ''k'') = Some 5999999999999999999 \<and>
   tokensToAdd conv_amd64 (snd huge) (Since 1000000000 0) = 6000000000000000000 \<and>
   map_option (sint \<circ> tokenCount)
     (bucket (snd (Allow conv_amd64 1000000000 1000000000 ''k'' huge)) ''k'') =
     Some (- 6446744073709551617)"
  unfolding huge_def by code_simp

text \<open>
  C2. For a key that has no bucket in the registry, \<open>Allow\<close> returns true, and
  afterwards the key's bucket exists with \<open>tokenCount = maxLimit - 1\<close> and \<open>lastSeen\<close>
  equal to the clock reading of the call. For a positive capacity the subtraction does
  not wrap, so the count is the capacity minus one as an integer.
\<close>

theorem first_Allow_admits:
  assumes "requests (snd s) k = None"
  shows "fst (Allow conv now1 now2 k s) = True \<and>
         bucket (snd (Allow conv now1 now2 k s)) k =
           Some \<lparr>lastSeen = now1, tokenCount = maxLimit (snd s) - 1\<rparr> \<and>
         (0 <s maxLimit (snd s) \<longrightarrow>
            map_option (sint \<circ> tokenCount) (bucket (snd (Allow conv now1 now2 k s)) k) =
              Some (sint (maxLimit (snd s)) - 1))"
proof -
  obtain h rl where s: "s = (h, rl)" by (cases s)
  from assms have none: "requests rl k = None" by (simp add: s)
  show ?thesis
    by (simp add: s Allow_new [OF none] bucket_def sint_dec)
qed

theorem first_Allow_admits_witness:
  "requests (snd (heap0, NewRateLimiter 5 60)) ''k'' = None \<and>
   fst (Allow conv_amd64 7 7 ''k'' (heap0, NewRateLimiter 5 60)) = True \<and>
   bucket (snd (Allow conv_amd64 7 7 ''k'' (heap0, NewRateLimiter 5 60))) ''k'' =
     Some \<lparr>lastSeen = 7, tokenCount = 4\<rparr> \<and>
   map_option (sint \<circ> tokenCount)
     (bucket (snd (Allow conv_amd64 7 7 ''k'' (heap0, NewRateLimiter 5 60))) ''k'') = Some 4"
proof -
  have h: "requests (snd (heap0, NewRateLimiter 5 60)) ''k'' = None"
    by (simp add: NewRateLimiter_def)
  have p: "0 <s maxLimit (snd (heap0, NewRateLimiter 5 60))"
    by (simp add: NewRateLimiter_def word_sless_alt)
  show ?thesis
    using h p first_Allow_admits [OF h, of conv_amd64 7 7]
    by (simp add: NewRateLimiter_def)
qed

text \<open>
  C3. In any state of a limiter made with capacity 5 and window 60 in which the key has
  no bucket yet (a new limiter is one), six calls for that key, all at the same clock
  reading, return true five times and then false.
\<close>

theorem burst_exhaustion:
  assumes "bucket (snd (run conv cs (h, NewRateLimiter 5 60))) k = None"
  shows "fst (run conv (replicate 6 (k, t, t)) (snd (run conv cs (h, NewRateLimiter 5 60)))) =
           [True, True, True, True, True, False]"
  using reached_5_60 [of conv cs h] assms by (rule exhausted_5_60(1))

theorem burst_exhaustion_witness:
  "bucket (snd (run conv_amd64 [(''a'', 0, 0)] (heap0, NewRateLimiter 5 60))) ''k'' = None \<and>
   fst (run conv_amd64 (replicate 6 (''k'', 9, 9))
          (snd (run conv_amd64 [(''a'', 0, 0)] (heap0, NewRateLimiter 5 60)))) =
     [True, True, True, True, True, False]"
proof -
  have n: "bucket (snd (run conv_amd64 [(''a'', 0, 0)] (heap0, NewRateLimiter 5 60))) ''k'' = None"
    by code_simp
  from n burst_exhaustion [OF n, of 9] show ?thesis by simp
qed

text \<open>
  C4. The claim: whenever the exact whole-token count, the floor of the elapsed seconds
  times the capacity over the window, is zero, the call leaves \<open>lastSeen\<close> unchanged. The
  code computes the count in float64 (lines 41 to 43), and the two can differ. With
  capacity 1 and a window of \<open>2^25\<close> seconds, a call 33554431.999999999 s after the bucket
  was made has an exact count of 0; but \<open>Seconds\<close> rounds that duration to
  \<open>33554432.0\<close>, the product is \<open>1.0\<close>, one token is added and \<open>lastSeen\<close> is rewritten.
\<close>

theorem whole_token_count_rounds_up:
  "bucket longwin ''k'' = Some \<lparr>lastSeen = 0, tokenCount = 0\<rparr> \<and>
   \<lfloor>spec_quotient (snd longwin) (Since 33554431999999999 0)\<rfloor> = 0 \<and>
   bucket (snd (Allow conv_amd64 33554431999999999 33554431999999999 ''k'' longwin)) ''k'' =
     Some \<lparr>lastSeen = 33554431999999999, tokenCount = 0\<rparr>"
  unfolding longwin_def by code_simp

text \<open>
  C4, amended. Let \<open>x\<close> be the exact quotient: the elapsed time since \<open>lastSeen\<close> in
  seconds, times the capacity, over the window. Capacity and window are positive and the
  clock readings are not before \<open>lastSeen\<close>. The float64 product is within a factor
  \<open>1 \<plusminus> 2^-50\<close> of \<open>x\<close>. So after any number of calls for which \<open>x * (1 + 2^-50) < 1\<close>,
  \<open>lastSeen\<close> is as it was; and the tokens \<open>a\<close> that the next call adds are counted from
  the whole interval since \<open>lastSeen\<close>, not from the time since the call before it: \<open>a\<close>
  lies between the floors of \<open>x * (1 - 2^-50)\<close> and \<open>x * (1 + 2^-50)\<close> for that interval
  (which must stay below \<open>2^63\<close>). The last conjunct gives the outcome of that call in terms
  of \<open>a\<close>.
\<close>

theorem fractional_retention:
  fixes s :: "Heap \<times> RateLimiter" and conv :: "float64 \<Rightarrow> 64 word"
    and now3 now4 :: Time and k :: string and ts :: "(Time \<times> Time) list"
  assumes "0 <s maxLimit (snd s)" and "0 <s timeLImit (snd s)"
    and "bucket s k = Some m"
    and "\<forall>c \<in> set ts. lastSeen m \<le> fst c \<and>
           spec_quotient (snd s) (Since (fst c) (lastSeen m)) * (1 + 1 / 2 ^ 50) < 1"
    and "lastSeen m \<le> now3"
    and "spec_quotient (snd s) (Since now3 (lastSeen m)) * (1 + 1 / 2 ^ 50) < 2 ^ 63"
  defines "s1 \<equiv> snd (run conv (map (Pair k) ts) s)"
  defines "a \<equiv> tokensToAdd conv (snd s) (Since now3 (lastSeen m))"
  shows "map_option lastSeen (bucket s1 k) = Some (lastSeen m) \<and>
         \<lfloor>spec_quotient (snd s) (Since now3 (lastSeen m)) * (1 - 1 / 2 ^ 50)\<rfloor> \<le> sint a \<and>
         sint a \<le> \<lfloor>spec_quotient (snd s) (Since now3 (lastSeen m)) * (1 + 1 / 2 ^ 50)\<rfloor> \<and>
         (\<exists>tc1. map_option tokenCount (bucket s1 k) = Some tc1 \<and>
            (let tc2 = (if 0 <s a then tc1 + a else tc1);
                 tc3 = (if maxLimit (snd s) <s tc2 then maxLimit (snd s) else tc2)
             in fst (Allow conv now3 now4 k s1) = (0 <s tc3) \<and>
                bucket (snd (Allow conv now3 now4 k s1)) k =
                  Some \<lparr>lastSeen = (if 0 <s a then now4 else lastSeen m),
                        tokenCount = (if 0 <s tc3 then tc3 - 1 else tc3)\<rparr>))"
proof -
  have z: "\<forall>c \<in> set ts. tokensToAdd conv (snd s) (Since (fst c) (lastSeen m)) = 0"
  proof
    fix c assume "c \<in> set ts"
    with assms(4) have le: "lastSeen m \<le> fst c"
      and q: "spec_quotient (snd s) (Since (fst c) (lastSeen m)) * (1 + 1 / 2 ^ 50) < 1"
      by blast+
    show "tokensToAdd conv (snd s) (Since (fst c) (lastSeen m)) = 0"
      using assms(1,2) Since_nonneg [OF le] q by (rule tokensToAdd_below_one)
  qed
  obtain m1 where b1: "bucket s1 k = Some m1" and ls: "lastSeen m1 = lastSeen m"
    and rl: "snd s1 = snd s"
    using no_refill_run [OF assms(3) z] unfolding s1_def by blast
  have bd: "\<lfloor>spec_quotient (snd s) (Since now3 (lastSeen m)) * (1 - 1 / 2 ^ 50)\<rfloor> \<le> sint a \<and>
         sint a \<le> \<lfloor>spec_quotient (snd s) (Since now3 (lastSeen m)) * (1 + 1 / 2 ^ 50)\<rfloor>"
    unfolding a_def
    using assms(1,2) Since_nonneg [OF assms(5)] assms(6) by (rule tokensToAdd_spec_bounds)
  have a: "tokensToAdd conv (snd s) (Since now3 (lastSeen m1)) = a"
    by (simp add: a_def ls)
  have ex: "Allow_existing conv (snd s) now3 now4 m1 =
      (let tc2 = (if 0 <s a then tokenCount m1 + a else tokenCount m1);
           tc3 = (if maxLimit (snd s) <s tc2 then maxLimit (snd s) else tc2)
       in (0 <s tc3, \<lparr>lastSeen = (if 0 <s a then now4 else lastSeen m),
                          tokenCount = (if 0 <s tc3 then tc3 - 1 else tc3)\<rparr>))"
    unfolding Allow_existing_def [of conv "snd s" now3 now4 m1] a
    using ls by (cases m1) (simp add: Let_def)
  have out: "\<exists>tc1. map_option tokenCount (bucket s1 k) = Some tc1 \<and>
            (let tc2 = (if 0 <s a then tc1 + a else tc1);
                 tc3 = (if maxLimit (snd s) <s tc2 then maxLimit (snd s) else tc2)
             in fst (Allow conv now3 now4 k s1) = (0 <s tc3) \<and>
                bucket (snd (Allow conv now3 now4 k s1)) k =
                  Some \<lparr>lastSeen = (if 0 <s a then now4 else lastSeen m),
                        tokenCount = (if 0 <s tc3 then tc3 - 1 else tc3)\<rparr>)"
    using bucket_Allow_same [OF b1, of conv now3 now4] ex
    by (simp add: b1 ls rl Let_def)
  have l: "map_option lastSeen (bucket s1 k) = Some (lastSeen m)"
    by (simp add: b1 ls)
  from l bd out show ?thesis by blast
qed

theorem fractional_retention_witness:
  "0 <s maxLimit (snd drained) \<and> 0 <s timeLImit (snd drained) \<and>
   bucket drained ''k'' = Some \<lparr>lastSeen = 0, tokenCount = 0\<rparr> \<and>
   spec_quotient (snd drained) (Since 100000000 0) = 1 / 4 \<and>
   spec_quotient (snd drained) (Since 300000000 0) = 3 / 4 \<and>
   spec_quotient (snd drained) (Since 900000000 300000000) = 3 / 2 \<and>
   spec_quotient (snd drained) (Since 900000000 0) = 9 / 4 \<and>
   map_option lastSeen
     (bucket (snd (run conv_amd64
        (map (Pair ''k'') [(100000000, 100000000), (300000000, 300000000)]) drained)) ''k'') =
     Some 0 \<and>
   tokensToAdd conv_amd64 (snd drained) (Since 900000000 0) = 2 \<and>
   fst (Allow conv_amd64 900000000 900000007 ''k''
          (snd (run conv_amd64
             (map (Pair ''k'') [(100000000, 100000000), (300000000, 300000000)]) drained))) =
     True \<and>
   bucket (snd (Allow conv_amd64 900000000 900000007 ''k''
          (snd (run conv_amd64
             (map (Pair ''k'') [(100000000, 100000000), (300000000, 300000000)]) drained)))) ''k'' =
     Some \<lparr>lastSeen = 900000007, tokenCount = 1\<rparr>"
proof -
  let ?m = "\<lparr>lastSeen = 0 :: Time, tokenCount = 0 :: 64 word\<rparr>"
  let ?ts = "[(100000000, 100000000), (300000000, 300000000)] :: (Time \<times> Time) list"
  define s1 where "s1 = snd (run conv_amd64 (map (Pair ''k'') ?ts) drained)"
  define a where "a = tokensToAdd conv_amd64 (snd drained) (Since 900000000 0)"
  have cap: "maxLimit (snd drained) = 5"
    unfolding drained_def by code_simp
  have win: "timeLImit (snd drained) = 2"
    unfolding drained_def by code_simp
  have p1: "0 <s maxLimit (snd drained)" unfolding cap by (simp add: word_sless_alt)
  have p2: "0 <s timeLImit (snd drained)" unfolding win by (simp add: word_sless_alt)
  have b: "bucket drained ''k'' = Some ?m"
    unfolding drained_def by code_simp
  have q1: "spec_quotient (snd drained) (Since 100000000 0) = 1 / 4"
    by (simp add: spec_quotient_def cap win Since_def)
  have q3: "spec_quotient (snd drained) (Since 300000000 0) = 3 / 4"
    by (simp add: spec_quotient_def cap win Since_def)
  have q6: "spec_quotient (snd drained) (Since 900000000 300000000) = 3 / 2"
    by (simp add: spec_quotient_def cap win Since_def)
  have q9: "spec_quotient (snd drained) (Since 900000000 0) = 9 / 4"
    by (simp add: spec_quotient_def cap win Since_def)
  have h: "\<forall>c \<in> set ?ts. lastSeen ?m \<le> fst c \<and>
      spec_quotient (snd drained) (Since (fst c) (lastSeen ?m)) * (1 + 1 / 2 ^ 50) < 1"
    using q1 q3 by simp
  have l: "lastSeen ?m \<le> 900000000" by simp
  have u: "spec_quotient (snd drained) (Since 900000000 (lastSeen ?m)) * (1 + 1 / 2 ^ 50) < 2 ^ 63"
    using q9 by simp
  have f1: "\<lfloor>(9 / 4 :: rat) * (1 - 1 / 2 ^ 50)\<rfloor> = 2" by (rule floor_unique) simp_all
  have f2: "\<lfloor>(9 / 4 :: rat) * (1 + 1 / 2 ^ 50)\<rfloor> = 2" by (rule floor_unique) simp_all
  have tc1: "map_option tokenCount (bucket s1 ''k'') = Some 0"
    unfolding s1_def drained_def by code_simp
  have ls0: "lastSeen ?m = 0" by simp
  note fr = fractional_retention [OF p1 p2 b h l u, of conv_amd64 900000007,
      unfolded ls0 q9 f1 f2, folded s1_def a_def]
  have "2 \<le> sint a" "sint a \<le> 2"
    using fr by blast+
  then have "sint a = 2" by simp
  then have "word_of_int (sint a) = (2 :: 64 word)" by simp
  then have a2: "a = 2" by simp
  have "map_option lastSeen (bucket s1 ''k'') = Some 0 \<and>
        fst (Allow conv_amd64 900000000 900000007 ''k'' s1) = True \<and>
        bucket (snd (Allow conv_amd64 900000000 900000007 ''k'' s1)) ''k'' =
          Some \<lparr>lastSeen = 900000007, tokenCount = 1\<rparr>"
    using fr by (simp add: tc1 cap a2 word_sless_alt)
  then show ?thesis
    using p1 p2 b q1 q3 q6 q9 a2 unfolding s1_def a_def by simp
qed

text \<open>
  C5. With capacity 5 and window 60, after the six calls that exhaust the bucket of a
  fresh key, a call exactly 12 seconds (12000000000 ns) later returns true, and a call at
  the clock reading that call recorded returns false: one token was regenerated.
\<close>

theorem refill_after_12_seconds:
  assumes "bucket (snd (run conv cs (h, NewRateLimiter 5 60))) k = None"
  shows "fst (run conv (replicate 6 (k, t, t) @ [(k, t + 12000000000, t2), (k, t2, t3)])
                (snd (run conv cs (h, NewRateLimiter 5 60)))) =
           [True, True, True, True, True, False, True, False]"
proof -
  let ?s = "snd (run conv cs (h, NewRateLimiter 5 60))"
  let ?s6 = "snd (run conv (replicate 6 (k, t, t)) ?s)"
  let ?m6 = "\<lparr>lastSeen = t, tokenCount = 0 :: 64 word\<rparr>"
  let ?m7 = "\<lparr>lastSeen = t2, tokenCount = 0 :: 64 word\<rparr>"
  let ?s7 = "snd (Allow conv (t + 12000000000) t2 k ?s6)"
  note six = exhausted_5_60 [OF reached_5_60 [of conv cs h] assms, where t = t]
  have bk6: "bucket ?s6 k = Some ?m6" and wf6: "wf ?s6"
    and cfg6: "maxLimit (snd ?s6) = 5" "timeLImit (snd ?s6) = 60"
    using six by simp_all
  have add: "tokensToAdd conv (snd ?s6) d = tokensToAdd conv (NewRateLimiter 5 60) d" for d
    by (rule tokensToAdd_config) (simp_all add: cfg6 NewRateLimiter_sel)
  have ex7: "Allow_existing conv (snd ?s6) (t + 12000000000) t2 ?m6 = (True, ?m7)"
    by (simp add: Allow_existing_def add Since_def tokensToAdd_5_60_twelve cfg6 word_sless_alt)
  have b7: "fst (Allow conv (t + 12000000000) t2 k ?s6) = True"
    using bucket_Allow_old(1) [OF wf6 bk6, of conv "t + 12000000000" t2] ex7 by simp
  have bk7: "bucket ?s7 k = Some ?m7"
    using bucket_Allow_old(2) [OF wf6 bk6, of conv "t + 12000000000" t2] ex7 by simp
  have wf7: "wf ?s7" using wf6 by (rule wf_Allow)
  have rl7: "snd ?s7 = snd ?s6" using bk6 by (rule Allow_rl_old)
  have ex8: "Allow_existing conv (snd ?s7) t2 t3 ?m7 = (False, ?m7)"
    by (simp add: Allow_existing_def rl7 add Since_self tokensToAdd_5_60_zero cfg6 word_sless_alt)
  have b8: "fst (Allow conv t2 t3 k ?s7) = False"
    using bucket_Allow_old(1) [OF wf7 bk7, of conv t2 t3] ex8 by simp
  show ?thesis
    using b7 b8 six(1) by (simp add: run_append split_beta)
qed

theorem refill_after_12_seconds_witness:
  "bucket (snd (run conv_amd64 [(''a'', 0, 0)] (heap0, NewRateLimiter 5 60))) ''k'' = None \<and>
   fst (run conv_amd64
          (replicate 6 (''k'', 1000, 1000) @
             [(''k'', 1000 + 12000000000, 12000000500), (''k'', 12000000500, 12000000600)])
          (snd (run conv_amd64 [(''a'', 0, 0)] (heap0, NewRateLimiter 5 60)))) =
     [True, True, True, True, True, False, True, False]"
proof -
  have n: "bucket (snd (run conv_amd64 [(''a'', 0, 0)] (heap0, NewRateLimiter 5 60))) ''k'' = None"
    by code_simp
  from n refill_after_12_seconds [OF n, of 1000 12000000500 12000000600] show ?thesis
    by simp
qed

text \<open>
  C6. In a well-formed state (every state of a limiter is one: \<open>wf_init\<close>, \<open>wf_run\<close>),
  a call for key \<open>a\<close> leaves the bucket of any other key \<open>b\<close> as it was: its value, or
  its absence. In particular, after any number of calls for \<open>a\<close>, a first call for \<open>b\<close>
  returns true and creates a full bucket less the one token it takes.
\<close>

theorem independence_across_keys:
  assumes "wf s" and "a \<noteq> b"
  shows "bucket (snd (Allow conv now1 now2 a s)) b = bucket s b \<and>
         (bucket s b = None \<longrightarrow>
            fst (Allow conv n1 n2 b (snd (run conv (map (Pair a) ts) s))) = True \<and>
            bucket (snd (Allow conv n1 n2 b (snd (run conv (map (Pair a) ts) s)))) b =
              Some \<lparr>lastSeen = n1, tokenCount = maxLimit (snd s) - 1\<rparr>)"
proof -
  let ?s' = "snd (run conv (map (Pair a) ts) s)"
  have wf': "wf ?s'" using assms(1) by (rule wf_run)
  have fr: "bucket ?s' b = bucket s b"
    using assms by (intro run_frame) auto
  have cfg: "maxLimit (snd ?s') = maxLimit (snd s)"
    using run_config [of conv "map (Pair a) ts" s] by simp
  show ?thesis
  proof (intro conjI impI)
    show "bucket (snd (Allow conv now1 now2 a s)) b = bucket s b"
      using assms by (rule Allow_frame)
  next
    assume "bucket s b = None"
    then have none: "bucket ?s' b = None" by (simp add: fr)
    show "fst (Allow conv n1 n2 b ?s') = True"
      using bucket_Allow_new(1) [OF wf' none] .
    show "bucket (snd (Allow conv n1 n2 b ?s')) b =
            Some \<lparr>lastSeen = n1, tokenCount = maxLimit (snd s) - 1\<rparr>"
      using bucket_Allow_new(2) [OF wf' none, of conv n1 n2] by (simp add: cfg)
  qed
qed

theorem independence_across_keys_witness:
  "wf (heap0, NewRateLimiter 5 60) \<and> ''a'' \<noteq> ''b'' \<and>
   bucket (heap0, NewRateLimiter 5 60) ''b'' = None \<and>
   bucket (snd (Allow conv_amd64 0 0 ''a'' (heap0, NewRateLimiter 5 60))) ''b'' = None \<and>
   fst (run conv_amd64 (map (Pair ''a'') (replicate 6 (0, 0))) (heap0, NewRateLimiter 5 60)) =
     [True, True, True, True, True, False] \<and>
   fst (Allow conv_amd64 3 3 ''b''
          (snd (run conv_amd64 (map (Pair ''a'') (replicate 6 (0, 0))) (heap0, NewRateLimiter 5 60)))) = True \<and>
   bucket (snd (Allow conv_amd64 3 3 ''b''
          (snd (run conv_amd64 (map (Pair ''a'') (replicate 6 (0, 0))) (heap0, NewRateLimiter 5 60))))) ''b'' =
     Some \<lparr>lastSeen = 3, tokenCount = 4\<rparr>"
proof -
  have w: "wf (heap0, NewRateLimiter 5 60)" by (rule wf_init)
  have d: "''a'' \<noteq> ''b''" by simp
  have n: "bucket (heap0, NewRateLimiter 5 60) ''b'' = None"
    by (simp add: bucket_def NewRateLimiter_def)
  have e: "fst (run conv_amd64 (map (Pair ''a'') (replicate 6 (0, 0))) (heap0, NewRateLimiter 5 60)) =
     [True, True, True, True, True, False]"
    using exhausted_5_60(1) [OF w, where k = "''a''" and conv = conv_amd64 and t = 0] n
    by (simp add: NewRateLimiter_sel bucket_def)
  show ?thesis
    using w d n e
      independence_across_keys [OF w d, of conv_amd64 0 0 3 3 "replicate 6 (0, 0)"]
    by (simp add: NewRateLimiter_sel)
qed

text \<open>
  C7. The wrapped handler, in order: a missing or empty \<open>X-API-KEY\<close> header gives 401 and
  the limiter is not consulted; a key that is not in the key store gives 401 likewise; a
  valid key that \<open>Allow\<close> rejects gives 429; otherwise the request goes unchanged to the
  wrapped handler. In the first three cases the response does not depend on the wrapped
  handler: it is not called. The status is that of the response when the middleware is
  the first to write to the writer (\<open>status w = 0\<close>), as it is for a request the server
  hands to it.
\<close>

theorem middleware_gate:
  fixes "next" :: Handler and r :: Request and w :: ResponseWriter
    and apiKeys :: "string \<rightharpoonup> bool" and conv :: "float64 \<Rightarrow> 64 word"
    and now1 now2 :: Time and s :: "Heap \<times> RateLimiter"
  defines "key \<equiv> Header_Get (Header r) ''X-API-KEY''"
  defines "res \<equiv> RateLimiterMiddleware next apiKeys conv now1 now2 w r s"
  shows "(Header r ''X-API-KEY'' = None \<or> key = [] \<longrightarrow>
            res = (http_Error w ''Missing API key'' 401, s) \<and>
            (status w = 0 \<longrightarrow> status (fst res) = 401)) \<and>
         (key \<noteq> [] \<and> key \<notin> dom apiKeys \<longrightarrow>
            res = (http_Error w ''Invalid API key'' 401, s) \<and>
            (status w = 0 \<longrightarrow> status (fst res) = 401)) \<and>
         (key \<noteq> [] \<and> key \<in> dom apiKeys \<and> \<not> fst (Allow conv now1 now2 key s) \<longrightarrow>
            res = (http_Error w ''Rate limit exceeded'' 429, snd (Allow conv now1 now2 key s)) \<and>
            (status w = 0 \<longrightarrow> status (fst res) = 429)) \<and>
         (key \<noteq> [] \<and> key \<in> dom apiKeys \<and> fst (Allow conv now1 now2 key s) \<longrightarrow>
            res = (next w r, snd (Allow conv now1 now2 key s)))"
proof -
  have absent: "key = []" if "Header r ''X-API-KEY'' = None"
    using that by (simp add: key_def Header_Get_def)
  have valid: "isValidApiKey apiKeys key \<longleftrightarrow> key \<in> dom apiKeys"
    by (auto simp: isValidApiKey_def split: option.splits)
  have st: "status (http_Error w' e c) = (if status w' = 0 then c else status w')" for w' e c
    by (simp add: http_Error_def)
  show ?thesis
    using absent
    by (auto simp: res_def RateLimiterMiddleware_def key_def [symmetric] valid st
        StatusUnauthorized_def StatusTooManyRequests_def split_beta)
qed

theorem middleware_gate_witness:
  "status writer0 = 0 \<and>
   status (fst (RateLimiterMiddleware helloHandler README_keys conv_amd64 0 0 writer0
                  \<lparr>Header = Map.empty\<rparr> (heap0, NewRateLimiter 5 60))) = 401 \<and>
   status (fst (RateLimiterMiddleware helloHandler README_keys conv_amd64 0 0 writer0
                  \<lparr>Header = [''X-API-KEY'' \<mapsto> [''unknown'']]\<rparr> (heap0, NewRateLimiter 5 60))) = 401 \<and>
   fst (RateLimiterMiddleware helloHandler README_keys conv_amd64 0 0 writer0
          \<lparr>Header = [''X-API-KEY'' \<mapsto> [''apikey123'']]\<rparr> (heap0, NewRateLimiter 5 60)) =
     \<lparr>status = 200, body = ''Hello World''\<rparr> \<and>
   status (fst (RateLimiterMiddleware helloHandler README_keys conv_amd64 0 0 writer0
                  \<lparr>Header = [''X-API-KEY'' \<mapsto> [''apikey123'']]\<rparr>
                  (snd (run conv_amd64 (replicate 6 (''apikey123'', 0, 0)) (heap0, NewRateLimiter 5 60))))) = 429"
proof -
  let ?s0 = "(heap0, NewRateLimiter 5 60)"
  let ?s6 = "snd (run conv_amd64 (replicate 6 (''apikey123'', 0, 0)) ?s0)"
  let ?e = "\<lparr>Header = Map.empty\<rparr> :: Request"
  let ?r = "\<lparr>Header = [''X-API-KEY'' \<mapsto> [''apikey123'']]\<rparr>"
  let ?u = "\<lparr>Header = [''X-API-KEY'' \<mapsto> [''unknown'']]\<rparr>"
  have w0: "status writer0 = 0" by (simp add: writer0_def)
  have e: "Header ?e ''X-API-KEY'' = None" by simp
  have k: "Header_Get (Header ?r) ''X-API-KEY'' = ''apikey123''"
    and u: "Header_Get (Header ?u) ''X-API-KEY'' = ''unknown''"
    by (simp_all add: Header_Get_def)
  have v: "''apikey123'' \<in> dom README_keys" and nv: "''unknown'' \<notin> dom README_keys"
    by (simp_all add: README_keys_def)
  have a0: "fst (Allow conv_amd64 0 0 ''apikey123'' ?s0) = True"
    using first_Allow_aux [of ?s0 "''apikey123''"] by (simp add: NewRateLimiter_sel)
  have a6: "fst (Allow conv_amd64 0 0 ''apikey123'' ?s6) = False"
    by code_simp
  note g1 = middleware_gate [of ?e helloHandler README_keys conv_amd64 0 0 writer0 ?s0]
  note g2 = middleware_gate [of ?u helloHandler README_keys conv_amd64 0 0 writer0 ?s0, unfolded u]
  note g3 = middleware_gate [of ?r helloHandler README_keys conv_amd64 0 0 writer0 ?s0, unfolded k]
  note g4 = middleware_gate [of ?r helloHandler README_keys conv_amd64 0 0 writer0 ?s6, unfolded k]
  have c1: "status (fst (RateLimiterMiddleware helloHandler README_keys conv_amd64 0 0 writer0 ?e ?s0)) = 401"
    using conjunct1 [OF g1] e w0 by blast
  have c2: "status (fst (RateLimiterMiddleware helloHandler README_keys conv_amd64 0 0 writer0 ?u ?s0)) = 401"
    using conjunct1 [OF conjunct2 [OF g2]] nv w0 by blast
  have c3: "fst (RateLimiterMiddleware helloHandler README_keys conv_amd64 0 0 writer0 ?r ?s0) =
      \<lparr>status = 200, body = ''Hello World''\<rparr>"
    using g3 v a0 by (simp add: helloHandler_def writer0_def)
  have c4: "status (fst (RateLimiterMiddleware helloHandler README_keys conv_amd64 0 0 writer0 ?r ?s6)) = 429"
    using conjunct1 [OF conjunct2 [OF conjunct2 [OF g4]]] v a6 w0 by blast
  from w0 c1 c2 c3 c4 show ?thesis by simp
qed

text \<open>
  C8. The claim: every call, admitted or rejected, changes the bucket of its key. It
  fails: a rejected call leaves the bucket exactly as it was. Here the bucket is empty and
  five seconds have passed, less than the twelve a token takes.
\<close>

theorem rejected_call_leaves_bucket:
  "fst (Allow conv_amd64 5000000000 5000000000 ''k'' exhausted) = False \<and>
   bucket (snd (Allow conv_amd64 5000000000 5000000000 ''k'' exhausted)) ''k'' =
     bucket exhausted ''k''"
  unfolding exhausted_def by code_simp

text \<open>
  C8, amended. A call that returns true changes the bucket of its key: it creates the
  bucket, or takes a token from it (and records the refill, if there was one). The window
  is not zero and the clock does not run backwards: the bucket's \<open>lastSeen\<close> is not after
  the first reading, nor the first reading after the second.
\<close>

theorem admitted_call_changes_bucket:
  assumes "timeLImit (snd s) \<noteq> 0"
    and "case bucket s k of None \<Rightarrow> True | Some m \<Rightarrow> lastSeen m \<le> now1"
    and "now1 \<le> now2"
    and "fst (Allow conv now1 now2 k s)"
  shows "bucket (snd (Allow conv now1 now2 k s)) k \<noteq> bucket s k"
proof (cases "bucket s k")
  case None
  then show ?thesis using bucket_Allow_fresh [OF None, of conv now1 now2] by simp
next
  case (Some m)
  note same = bucket_Allow_same [OF Some, of conv now1 now2]
  from assms(2) Some have ls: "lastSeen m \<le> now1" by simp
  from assms(4) same have "fst (Allow_existing conv (snd s) now1 now2 m)" by simp
  from Allow_existing_changes [OF assms(1) ls assms(3) this]
  show ?thesis using same Some by simp
qed

theorem admitted_call_changes_bucket_witness:
  "timeLImit (snd exhausted) \<noteq> 0 \<and>
   bucket exhausted ''k'' = Some \<lparr>lastSeen = 0, tokenCount = 0\<rparr> \<and>
   (0 :: Time) \<le> 12000000000 \<and> (12000000000 :: Time) \<le> 12000000040 \<and>
   fst (Allow conv_amd64 12000000000 12000000040 ''k'' exhausted) \<and>
   bucket (snd (Allow conv_amd64 12000000000 12000000040 ''k'' exhausted)) ''k'' \<noteq>
     bucket exhausted ''k''"
proof -
  have t: "timeLImit (snd exhausted) \<noteq> 0" unfolding exhausted_def by code_simp
  have b: "bucket exhausted ''k'' = Some \<lparr>lastSeen = 0, tokenCount = 0\<rparr>"
    unfolding exhausted_def by code_simp
  have c: "case bucket exhausted ''k'' of None \<Rightarrow> True | Some m \<Rightarrow> lastSeen m \<le> 12000000000"
    by (simp add: b)
  have o: "(12000000000 :: Time) \<le> 12000000040" by simp
  have a: "fst (Allow conv_amd64 12000000000 12000000040 ''k'' exhausted)"
    unfolding exhausted_def by code_simp
  show ?thesis
    using t b o a admitted_call_changes_bucket [OF t c o a] by simp
qed

text \<open>
  C10. The claim: a call that returns false for an existing bucket leaves the bucket as
  it was, with no tokens. In the run of C1 the second call returns false, yet it has
  changed both fields of the bucket: the wrapped sum is not positive, so the call is
  rejected after the refill was written. Where the addition cannot overflow a rejected
  call changes nothing (\<open>rejected_unchanged_small_capacity\<close>).
\<close>

theorem rejected_call_after_overflow:
  "bucket huge ''k'' = Some \<lparr>lastSeen = 0, tokenCount = 5999999999999999999\<rparr> \<and>
   fst (Allow conv_amd64 1000000000 1000000000 ''k'' huge) = False \<and>
   bucket (snd (Allow conv_amd64 1000000000 1000000000 ''k'' huge)) ''k'' =
     Some \<lparr>lastSeen = 1000000000, tokenCount = - 6446744073709551617\<rparr>"
  unfolding huge_def by code_simp

end
